theory Spec2Isabelle
  imports Complex_Main "HOL-Library.Multiset" "HOL-Library.Word"
begin

section \<open>Data model\<close>

text \<open>
  A box is the Python list \<^verbatim>\<open>[x1, y1, x2, y2]\<close>; the selectors stand for the
  subscripts \<^verbatim>\<open>b[0]\<close>, \<^verbatim>\<open>b[1]\<close>, \<^verbatim>\<open>b[2]\<close>, \<^verbatim>\<open>b[3]\<close>. The detectors
  emit Python numbers (floats after \<^verbatim>\<open>tolist()\<close>, integers in the documented
  scenarios); they are modelled as exact rationals, so rounding of float
  arithmetic, infinities and NaN are outside the model. The literals
  \<^verbatim>\<open>0.5\<close>, \<^verbatim>\<open>0.3\<close> and \<^verbatim>\<open>0.95\<close> are the rationals 1/2, 3/10 and 19/20.
  Boxes with integer entries (the output of \<^verbatim>\<open>int(c)\<close>) are \<open>int box\<close>.
\<close>

datatype 'a box = Box (box_x1: 'a) (box_y1: 'a) (box_x2: 'a) (box_y2: 'a)

text \<open>
  The exceptions of the modelled code: the \<^verbatim>\<open>ZeroDivisionError\<close> of Python's
  division and the \<^verbatim>\<open>cv2.error\<close> of an OpenCV call.
\<close>

datatype py_error = ZeroDivisionError | Cv2Error

text \<open>Containment of box \<open>b\<close> in box \<open>a\<close>, as the claims spell it out.\<close>

definition box_contains :: "('a::linorder) box \<Rightarrow> 'a box \<Rightarrow> bool" where
  "box_contains a b \<longleftrightarrow>
     box_x1 a \<le> box_x1 b \<and> box_y1 a \<le> box_y1 b \<and> box_x2 b \<le> box_x2 a \<and> box_y2 b \<le> box_y2 a"

definition area :: "rat box \<Rightarrow> rat" where
  "area b = (box_x2 b - box_x1 b) * (box_y2 b - box_y1 b)"

text \<open>The invariant of the data model: \<open>x1 \<le> x2\<close> and \<open>y1 \<le> y2\<close>.\<close>

definition well_formed :: "rat box \<Rightarrow> bool" where
  "well_formed b \<longleftrightarrow> box_x1 b \<le> box_x2 b \<and> box_y1 b \<le> box_y2 b"

section \<open>YOLO/ordered\_detection.py: merging\<close>

text \<open>\<^verbatim>\<open>merge_boxes\<close> (lines 34-41).\<close>

definition merge_boxes :: "rat box \<Rightarrow> rat box \<Rightarrow> rat box" where
  "merge_boxes box1 box2 =
     Box (min (box_x1 box1) (box_x1 box2))
         (min (box_y1 box1) (box_y1 box2))
         (max (box_x2 box1) (box_x2 box2))
         (max (box_y2 box1) (box_y2 box2))"

text \<open>
  The body of the innermost loop of \<^verbatim>\<open>merge_overlapping_boxes\<close> for one pair:
  \<open>same_row\<close> is lines 65-67, \<open>overlap_ratio\<close> is lines 71-79, where the
  division raises \<^verbatim>\<open>ZeroDivisionError\<close> when the smaller area is zero, and
  \<open>merge_test\<close> is the decision of lines 69 and 81 whether the pair is merged.
  The ratio is only computed when \<open>same_row\<close> holds.
\<close>

definition same_row :: "rat box \<Rightarrow> rat box \<Rightarrow> bool" where
  "same_row box1 box2 =
     (let y_overlap = min (box_y2 box1) (box_y2 box2) - max (box_y1 box1) (box_y1 box2);
          min_height = min (box_y2 box1 - box_y1 box1) (box_y2 box2 - box_y1 box2)
      in y_overlap > min_height * (1 / 2))"

definition overlap_ratio :: "rat box \<Rightarrow> rat box \<Rightarrow> py_error + rat" where
  "overlap_ratio box1 box2 =
     (let y_overlap = min (box_y2 box1) (box_y2 box2) - max (box_y1 box1) (box_y1 box2);
          x_overlap = max 0 (min (box_x2 box1) (box_x2 box2) - max (box_x1 box1) (box_x1 box2));
          overlap_area = x_overlap * y_overlap;
          area1 = (box_x2 box1 - box_x1 box1) * (box_y2 box1 - box_y1 box1);
          area2 = (box_x2 box2 - box_x1 box2) * (box_y2 box2 - box_y1 box2)
      in if min area1 area2 = 0 then Inl ZeroDivisionError
         else Inr (overlap_area / min area1 area2))"

definition merge_test :: "rat box \<Rightarrow> rat box \<Rightarrow> rat \<Rightarrow> py_error + bool" where
  "merge_test box1 box2 overlap_threshold =
     (if same_row box1 box2 then
        (case overlap_ratio box1 box2 of
           Inl e \<Rightarrow> Inl e
         | Inr ratio \<Rightarrow> Inr (ratio > overlap_threshold))
      else Inr False)"

text \<open>\<^verbatim>\<open>boxes.pop(j)\<close> for an index in range.\<close>

definition pop :: "nat \<Rightarrow> 'a list \<Rightarrow> 'a list" where
  "pop j xs = take j xs @ drop (Suc j) xs"

text \<open>
  The loop over \<open>j\<close> (lines 61-87) for a fixed \<open>i\<close>. The result is an error, or
  \<open>None\<close> when \<open>j\<close> ran to the end without a merge, or the list after the merge
  of lines 83-84 (where the code sets \<^verbatim>\<open>merged\<close> and breaks).
\<close>

function inner_scan :: "rat box list \<Rightarrow> rat \<Rightarrow> nat \<Rightarrow> nat \<Rightarrow> py_error + rat box list option" where
  "inner_scan boxes thr i j =
     (if j < length boxes then
        (case merge_test (boxes ! i) (boxes ! j) thr of
           Inl e \<Rightarrow> Inl e
         | Inr True \<Rightarrow> Inr (Some (pop j (boxes[i := merge_boxes (boxes ! i) (boxes ! j)])))
         | Inr False \<Rightarrow> inner_scan boxes thr i (Suc j))
      else Inr None)"
  by pat_completeness auto
termination
  by (relation "measure (\<lambda>(boxes, thr, i, j). length boxes - j)") auto

declare inner_scan.simps [simp del]

text \<open>The loop over \<open>i\<close> (lines 59-90): one pass of the scan, from index \<open>i\<close> on.\<close>

function outer_scan :: "rat box list \<Rightarrow> rat \<Rightarrow> nat \<Rightarrow> py_error + rat box list option" where
  "outer_scan boxes thr i =
     (if i < length boxes then
        (case inner_scan boxes thr i (Suc i) of
           Inl e \<Rightarrow> Inl e
         | Inr (Some boxes') \<Rightarrow> Inr (Some boxes')
         | Inr None \<Rightarrow> outer_scan boxes thr (Suc i))
      else Inr None)"
  by pat_completeness auto
termination
  by (relation "measure (\<lambda>(boxes, thr, i). length boxes - i)") auto

declare outer_scan.simps [simp del]

lemma inner_scan_length:
  "inner_scan boxes thr i j = Inr (Some boxes') \<Longrightarrow> Suc (length boxes') = length boxes"
proof (induction boxes thr i j rule: inner_scan.induct)
  case (1 boxes thr i j)
  note unfold = "1.prems" [unfolded inner_scan.simps [of boxes thr i j]]
  show ?case
  proof (cases "j < length boxes")
    case False
    with unfold show ?thesis by simp
  next
    case True
    note j = this
    show ?thesis
    proof (cases "merge_test (boxes ! i) (boxes ! j) thr")
      case (Inl e)
      with unfold j show ?thesis by simp
    next
      case (Inr m)
      show ?thesis
      proof (cases m)
        case True
        with unfold j Inr have "boxes' = pop j (boxes[i := merge_boxes (boxes ! i) (boxes ! j)])"
          by simp
        with j show ?thesis by (simp add: pop_def)
      next
        case False
        with unfold j Inr have "inner_scan boxes thr i (Suc j) = Inr (Some boxes')"
          by simp
        with "1.IH" j Inr False show ?thesis by simp
      qed
    qed
  qed
qed

lemma outer_scan_length:
  "outer_scan boxes thr i = Inr (Some boxes') \<Longrightarrow> Suc (length boxes') = length boxes"
proof (induction boxes thr i rule: outer_scan.induct)
  case (1 boxes thr i)
  note unfold = "1.prems" [unfolded outer_scan.simps [of boxes thr i]]
  show ?case
  proof (cases "i < length boxes")
    case False
    with unfold show ?thesis by simp
  next
    case True
    note i = this
    show ?thesis
    proof (cases "inner_scan boxes thr i (Suc i)")
      case (Inl e)
      with unfold i show ?thesis by simp
    next
      case (Inr r)
      show ?thesis
      proof (cases r)
        case None
        with unfold i Inr have "outer_scan boxes thr (Suc i) = Inr (Some boxes')"
          by simp
        with "1.IH" i Inr None show ?thesis by simp
      next
        case (Some bs)
        with unfold i Inr have "bs = boxes'" by simp
        with Inr Some show ?thesis by (simp add: inner_scan_length)
      qed
    qed
  qed
qed

text \<open>
  The loop \<^verbatim>\<open>while merged\<close> (lines 55-90): a pass that merges restarts the scan
  on the shorter list, a pass that finds nothing ends the loop.
\<close>

function merge_loop :: "rat box list \<Rightarrow> rat \<Rightarrow> py_error + rat box list" where
  "merge_loop boxes thr =
     (case outer_scan boxes thr 0 of
        Inl e \<Rightarrow> Inl e
      | Inr None \<Rightarrow> Inr boxes
      | Inr (Some boxes') \<Rightarrow> merge_loop boxes' thr)"
  by pat_completeness auto
termination
proof (relation "measure (\<lambda>(boxes, thr). length boxes)")
  show "wf (measure (\<lambda>(boxes, thr). length boxes))" by simp
next
  fix boxes :: "rat box list" and thr :: rat and x2 x2a
  assume "outer_scan boxes thr 0 = Inr x2" and "x2 = Some x2a"
  then have "outer_scan boxes thr 0 = Inr (Some x2a)" by simp
  then have "Suc (length x2a) = length boxes" by (rule outer_scan_length)
  then show "((x2a, thr), (boxes, thr)) \<in> measure (\<lambda>(boxes, thr). length boxes)" by simp
qed

declare merge_loop.simps [simp del]

text \<open>\<^verbatim>\<open>merge_overlapping_boxes\<close> (lines 43-92).\<close>

definition merge_overlapping_boxes :: "rat box list \<Rightarrow> rat \<Rightarrow> py_error + rat box list" where
  "merge_overlapping_boxes boxes overlap_threshold =
     (if length boxes \<le> 1 then Inr boxes else merge_loop boxes overlap_threshold)"

section \<open>YOLO/ordered\_detection.py: reading order\<close>

text \<open>
  \<^verbatim>\<open>list.sort(key=..., reverse=...)\<close>: a stable sort by the key; with
  \<^verbatim>\<open>reverse=True\<close> CPython reverses the list, sorts it stably and reverses
  the result, so that equal keys keep their original order.
\<close>

definition py_sort :: "('a \<Rightarrow> rat) \<Rightarrow> bool \<Rightarrow> 'a list \<Rightarrow> 'a list" where
  "py_sort key reverse xs = (if reverse then rev (sort_key key (rev xs)) else sort_key key xs)"

text \<open>
  The test of line 110: the box \<open>b\<close> opens a new row after a row whose most
  recently appended box is \<open>prev\<close> (\<^verbatim>\<open>current_cluster[-1]\<close>).
\<close>

definition starts_new_row :: "rat box \<Rightarrow> rat box \<Rightarrow> bool" where
  "starts_new_row prev b \<longleftrightarrow> box_y1 b > box_y2 prev * (19 / 20)"

text \<open>
  The clustering loop (lines 108-115) over the boxes after the first, with the
  two variables \<^verbatim>\<open>clusters\<close> and \<^verbatim>\<open>current_cluster\<close>; the last equation is
  the append of line 115.
\<close>

fun cluster_loop :: "rat box list \<Rightarrow> rat box list list \<Rightarrow> rat box list \<Rightarrow> rat box list list" where
  "cluster_loop (b # rest) clusters current_cluster =
     (if starts_new_row (last current_cluster) b
      then cluster_loop rest (clusters @ [current_cluster]) [b]
      else cluster_loop rest clusters (current_cluster @ [b]))"
| "cluster_loop [] clusters current_cluster = clusters @ [current_cluster]"

text \<open>Lines 105-115; the empty list never reaches them (line 100).\<close>

fun row_clusters :: "rat box list \<Rightarrow> rat box list list" where
  "row_clusters (b # rest) = cluster_loop rest [] [b]"
| "row_clusters [] = []"

text \<open>
  The rule as claim C4 words it, for comparison with \<open>starts_new_row\<close>: the
  next box is compared with the largest \<open>y2\<close> of the whole current row.
\<close>

definition starts_new_row_running_max :: "rat box list \<Rightarrow> rat box \<Rightarrow> bool" where
  "starts_new_row_running_max current_cluster b \<longleftrightarrow>
     box_y1 b > Max (set (map box_y2 current_cluster)) * (19 / 20)"

text \<open>\<^verbatim>\<open>xy_cut_sort\<close> (lines 94-124).\<close>

definition xy_cut_sort :: "rat box list \<Rightarrow> bool \<Rightarrow> rat box list" where
  "xy_cut_sort boxes rtl =
     (if length boxes \<le> 1 then boxes
      else concat (map (py_sort box_x1 rtl) (row_clusters (py_sort box_y1 False boxes))))"

section \<open>YOLO/ordered\_detection.py: shrink-wrap and output\<close>

text \<open>\<^verbatim>\<open>int(c)\<close> on a number: truncation towards zero.\<close>

definition py_int :: "rat \<Rightarrow> int" where
  "py_int c = (if c < 0 then \<lceil>c\<rceil> else \<lfloor>c\<rfloor>)"

text \<open>
  The grayscale page is a list of rows of 8-bit intensities. A slice
  \<^verbatim>\<open>a[lo:hi]\<close> of Python and numpy counts a negative bound from the end and
  clamps both bounds to the length.
\<close>

type_synonym gray_image = "8 word list list"

definition slice_bound :: "int \<Rightarrow> nat \<Rightarrow> nat" where
  "slice_bound k n = (if k < 0 then nat (max 0 (k + int n)) else min (nat k) n)"

definition py_slice :: "int \<Rightarrow> int \<Rightarrow> 'a list \<Rightarrow> 'a list" where
  "py_slice lo hi xs =
     (let a = slice_bound lo (length xs); b = slice_bound hi (length xs)
      in take (b - a) (drop a xs))"

text \<open>\<^verbatim>\<open>full_img_gray[y1:y2, x1:x2]\<close> (line 203).\<close>

definition crop :: "gray_image \<Rightarrow> int \<Rightarrow> int \<Rightarrow> int \<Rightarrow> int \<Rightarrow> gray_image" where
  "crop img x1 y1 x2 y2 = map (py_slice x1 x2) (py_slice y1 y2 img)"

text \<open>
  The three OpenCV calls of lines 205-209 are library code; they are modelled
  from OpenCV's behaviour. \<^verbatim>\<open>threshold\<close> with \<^verbatim>\<open>THRESH_BINARY_INV\<close> sends a
  pixel above the threshold to 0 and every other pixel to \<^verbatim>\<open>maxval\<close>
  (\<open>binary_inv_mask\<close>); on a crop without pixels (no rows, or rows of no
  columns) its Python binding returns \<^verbatim>\<open>None\<close> for the mask. \<^verbatim>\<open>findNonZero\<close>
  raises \<^verbatim>\<open>cv2.error\<close> on that \<^verbatim>\<open>None\<close>; on a mask it lists the positions
  \<open>(x, y)\<close> of the non-zero pixels, and its Python binding gives \<^verbatim>\<open>None\<close> when
  there is none. \<^verbatim>\<open>boundingRect\<close> is the smallest upright rectangle
  \<open>(x, y, w, h)\<close> around the points, a pixel counting as a unit square.
\<close>

definition binary_inv_mask :: "gray_image \<Rightarrow> 8 word \<Rightarrow> 8 word \<Rightarrow> gray_image" where
  "binary_inv_mask src thresh maxval = map (map (\<lambda>p. if p > thresh then 0 else maxval)) src"

definition threshold_binary_inv :: "gray_image \<Rightarrow> 8 word \<Rightarrow> 8 word \<Rightarrow> gray_image option" where
  "threshold_binary_inv src thresh maxval =
     (if concat src = [] then None else Some (binary_inv_mask src thresh maxval))"

definition nonzero_points :: "gray_image \<Rightarrow> (nat \<times> nat) list" where
  "nonzero_points ink_mask =
     concat (map (\<lambda>(y, row). map (\<lambda>(x, p). (x, y)) (filter (\<lambda>(x, p). p \<noteq> 0) (enumerate 0 row)))
               (enumerate 0 ink_mask))"

definition findNonZero :: "gray_image option \<Rightarrow> py_error + (nat \<times> nat) list option" where
  "findNonZero ink_mask =
     (case ink_mask of
        None \<Rightarrow> Inl Cv2Error
      | Some m \<Rightarrow> Inr (if nonzero_points m = [] then None else Some (nonzero_points m)))"

fun boundingRect :: "(nat \<times> nat) list \<Rightarrow> nat \<times> nat \<times> nat \<times> nat" where
  "boundingRect [] = (0, 0, 0, 0)"
| "boundingRect (p # ps) =
     (let x_lo = fold min (map fst ps) (fst p); x_hi = fold max (map fst ps) (fst p);
          y_lo = fold min (map snd ps) (snd p); y_hi = fold max (map snd ps) (snd p)
      in (x_lo, y_lo, x_hi - x_lo + 1, y_hi - y_lo + 1))"

text \<open>
  The body of the shrink-wrap loop for one box (lines 201-212): the error of
  \<^verbatim>\<open>findNonZero\<close> on an empty crop is not caught in the loop.
\<close>

definition shrink_wrap :: "gray_image \<Rightarrow> rat box \<Rightarrow> py_error + int box" where
  "shrink_wrap full_img_gray box =
     (let x1 = py_int (box_x1 box); y1 = py_int (box_y1 box);
          x2 = py_int (box_x2 box); y2 = py_int (box_y2 box);
          panel_roi = crop full_img_gray x1 y1 x2 y2;
          ink_mask = threshold_binary_inv panel_roi 245 255
      in case findNonZero ink_mask of
           Inl e \<Rightarrow> Inl e
         | Inr (Some ink_coords) \<Rightarrow>
             (case boundingRect ink_coords of
                (ix, iy, iw, ih) \<Rightarrow>
                  Inr (Box (x1 + int ix) (y1 + int iy) (x1 + int ix + int iw) (y1 + int iy + int ih)))
         | Inr None \<Rightarrow> Inr (Box x1 y1 x2 y2))"

text \<open>
  The shrink-wrap loop over the ordered boxes (lines 199-212): the first box
  whose crop raises ends the loop with that error.
\<close>

fun shrink_all :: "gray_image \<Rightarrow> rat box list \<Rightarrow> py_error + int box list" where
  "shrink_all full_img_gray [] = Inr []"
| "shrink_all full_img_gray (box # ordered_boxes) =
     (case shrink_wrap full_img_gray box of
        Inl e \<Rightarrow> Inl e
      | Inr shrunk \<Rightarrow>
          (case shrink_all full_img_gray ordered_boxes of
             Inl e \<Rightarrow> Inl e
           | Inr final_output_boxes \<Rightarrow> Inr (shrunk # final_output_boxes)))"

text \<open>
  The notions in which claim C8 describes the result, written on the crop
  itself and not through the OpenCV calls: the positions \<open>(x, y)\<close> of the pixels
  of a crop with intensity at most 245, the smallest rectangle around those
  pixels (a pixel counting as a unit square, so the far corner is one past the
  largest position), and the translation of a rectangle by the crop offset.
\<close>

definition ink_positions :: "gray_image \<Rightarrow> (nat \<times> nat) list" where
  "ink_positions roi =
     concat (map (\<lambda>y. map (\<lambda>x. (x, y)) (filter (\<lambda>x. roi ! y ! x \<le> 245) [0..<length (roi ! y)]))
               [0..<length roi])"

definition ink_rectangle :: "gray_image \<Rightarrow> nat box" where
  "ink_rectangle roi =
     (let ink = set (ink_positions roi)
      in Box (Min (fst ` ink)) (Min (snd ` ink)) (Max (fst ` ink) + 1) (Max (snd ` ink) + 1))"

definition translate :: "int \<Rightarrow> int \<Rightarrow> nat box \<Rightarrow> int box" where
  "translate dx dy r =
     Box (dx + int (box_x1 r)) (dy + int (box_y1 r)) (dx + int (box_x2 r)) (dy + int (box_y2 r))"

text \<open>
  The records of \<^verbatim>\<open>reading_order\<close> (lines 218-223); the entries of the final
  boxes are Python integers already, so \<^verbatim>\<open>int(c)\<close> leaves them as they are.
\<close>

record ordered_panel =
  index :: int
  bbox :: "int box"

definition reading_order :: "int box list \<Rightarrow> ordered_panel list" where
  "reading_order final_output_boxes =
     map (\<lambda>(i, box). \<lparr>index = int i + 1, bbox = box\<rparr>) (enumerate 0 final_output_boxes)"

text \<open>Steps 4 to the output of \<^verbatim>\<open>main\<close> (lines 187-223) on the merged boxes.\<close>

definition order_and_shrink :: "gray_image \<Rightarrow> rat box list \<Rightarrow> py_error + ordered_panel list" where
  "order_and_shrink full_img_gray cleaned_boxes =
     (case shrink_all full_img_gray (xy_cut_sort cleaned_boxes True) of
        Inl e \<Rightarrow> Inl e
      | Inr final_output_boxes \<Rightarrow> Inr (reading_order final_output_boxes))"

section \<open>Magi/magi.py: the inclusion expander\<close>

text \<open>\<^verbatim>\<open>boxes_overlap\<close> (lines 30-35).\<close>

definition boxes_overlap :: "rat box \<Rightarrow> rat box \<Rightarrow> rat \<Rightarrow> bool" where
  "boxes_overlap box1 box2 threshold =
     (\<not> (box_x2 box1 < box_x1 box2 - threshold \<or>
         box_x1 box1 > box_x2 box2 + threshold \<or>
         box_y2 box1 < box_y1 box2 - threshold \<or>
         box_y1 box1 > box_y2 box2 + threshold))"

text \<open>
  The part of \<^verbatim>\<open>get_inclusive_panels\<close> after the detector has answered (lines
  52-75), as a function of \<^verbatim>\<open>panels\<close>, \<^verbatim>\<open>texts\<close> and \<^verbatim>\<open>associations\<close>; an
  association is a pair of Python integers. \<open>expand_step\<close> is the body of the
  loop over the text boxes (lines 67-71) on the running corner values
  \<^verbatim>\<open>x1, y1, x2, y2\<close>; \<open>expand_panel\<close> is the body of the loop over the panels
  (lines 59-73).
\<close>

definition expand_step :: "rat box \<Rightarrow> int list \<Rightarrow> nat \<times> rat box \<Rightarrow> rat box \<Rightarrow> rat box" where
  "expand_step panel_box associated_text_indices =
     (\<lambda>(t_idx, text_box) acc.
        if int t_idx \<in> set associated_text_indices \<or> boxes_overlap panel_box text_box 5
        then Box (min (box_x1 acc) (box_x1 text_box)) (min (box_y1 acc) (box_y1 text_box))
                 (max (box_x2 acc) (box_x2 text_box)) (max (box_y2 acc) (box_y2 text_box))
        else acc)"

definition expand_panel :: "rat box list \<Rightarrow> (int \<times> int) list \<Rightarrow> nat \<Rightarrow> rat box \<Rightarrow> int box" where
  "expand_panel texts associations p_idx panel_box =
     (let associated_text_indices = map snd (filter (\<lambda>a. fst a = int p_idx) associations);
          acc = fold (expand_step panel_box associated_text_indices) (enumerate 0 texts) panel_box
      in Box (py_int (box_x1 acc)) (py_int (box_y1 acc)) (py_int (box_x2 acc)) (py_int (box_y2 acc)))"

text \<open>
  The corner values of a panel when the loop over the text boxes ends (line 71),
  before the \<^verbatim>\<open>int\<close> of line 73; \<open>expand_panel\<close> truncates them.
\<close>

definition expanded :: "rat box list \<Rightarrow> (int \<times> int) list \<Rightarrow> nat \<Rightarrow> rat box \<Rightarrow> rat box" where
  "expanded texts associations p_idx panel_box =
     fold (expand_step panel_box (map snd (filter (\<lambda>a. fst a = int p_idx) associations)))
       (enumerate 0 texts) panel_box"

text \<open>
  No statement of lines 52-75 raises on boxes of four numbers and associations
  of two integers, so every path ends in the \<^verbatim>\<open>return\<close> of line 75.
\<close>

definition get_inclusive_panels ::
  "rat box list \<Rightarrow> rat box list \<Rightarrow> (int \<times> int) list \<Rightarrow> py_error + int box list" where
  "get_inclusive_panels panels texts associations =
     Inr (map (\<lambda>(p_idx, panel_box). expand_panel texts associations p_idx panel_box)
            (enumerate 0 panels))"

text \<open>
  An association whose indices refer to positions of \<^verbatim>\<open>panels\<close> and \<^verbatim>\<open>texts\<close>.
\<close>

definition assoc_in_range :: "rat box list \<Rightarrow> rat box list \<Rightarrow> int \<times> int \<Rightarrow> bool" where
  "assoc_in_range panels texts a \<longleftrightarrow>
     0 \<le> fst a \<and> fst a < int (length panels) \<and> 0 \<le> snd a \<and> snd a < int (length texts)"

section \<open>Properties of the merge\<close>

lemma same_row_heights:
  assumes "same_row a b"
  shows "box_y1 a < box_y2 a" and "box_y1 b < box_y2 b"
  using assms by (auto simp: same_row_def Let_def min_def max_def split: if_splits)

lemma overlap_ratio_total:
  assumes "0 < area a" and "0 < area b"
  shows "\<exists>r. overlap_ratio a b = Inr r"
proof -
  from assms have "min (area a) (area b) \<noteq> 0" by (simp add: min_def)
  then show ?thesis
    unfolding overlap_ratio_def area_def Let_def by simp
qed

lemma merge_test_total:
  assumes "0 < area a" and "0 < area b"
  shows "\<exists>m. merge_test a b thr = Inr m"
proof (cases "same_row a b")
  case True
  from overlap_ratio_total [OF assms] obtain r where "overlap_ratio a b = Inr r" ..
  with True show ?thesis by (simp add: merge_test_def)
next
  case False
  then have "merge_test a b thr = Inr False" by (simp add: merge_test_def)
  then show ?thesis ..
qed

lemma merge_test_True_same_row: "merge_test a b thr = Inr True \<Longrightarrow> same_row a b"
  by (simp add: merge_test_def split: if_splits)

text \<open>What the loop over \<open>j\<close> returns.\<close>

lemma inner_scan_Some:
  "inner_scan boxes thr i j = Inr (Some boxes') \<Longrightarrow>
     \<exists>k. j \<le> k \<and> k < length boxes \<and> merge_test (boxes ! i) (boxes ! k) thr = Inr True \<and>
         boxes' = pop k (boxes[i := merge_boxes (boxes ! i) (boxes ! k)])"
proof (induction boxes thr i j rule: inner_scan.induct)
  case (1 boxes thr i j)
  note unfold = "1.prems" [unfolded inner_scan.simps [of boxes thr i j]]
  show ?case
  proof (cases "j < length boxes")
    case False
    with unfold show ?thesis by simp
  next
    case True
    note j = this
    show ?thesis
    proof (cases "merge_test (boxes ! i) (boxes ! j) thr")
      case (Inl e)
      with unfold j show ?thesis by simp
    next
      case (Inr m)
      show ?thesis
      proof (cases m)
        case True
        with unfold j Inr have "boxes' = pop j (boxes[i := merge_boxes (boxes ! i) (boxes ! j)])"
          by simp
        moreover from Inr True have "merge_test (boxes ! i) (boxes ! j) thr = Inr True" by simp
        ultimately show ?thesis using j by (intro exI [of _ j]) simp
      next
        case False
        then have mF: "m = False" by simp
        with unfold j Inr have "inner_scan boxes thr i (Suc j) = Inr (Some boxes')"
          by simp
        from "1.IH" [OF j Inr mF this] obtain k where
          k: "Suc j \<le> k \<and> k < length boxes \<and> merge_test (boxes ! i) (boxes ! k) thr = Inr True \<and>
            boxes' = pop k (boxes[i := merge_boxes (boxes ! i) (boxes ! k)])" ..
        then show ?thesis by (intro exI [of _ k]) simp
      qed
    qed
  qed
qed

lemma inner_scan_None:
  "inner_scan boxes thr i j = Inr None \<longleftrightarrow>
     (\<forall>k. j \<le> k \<and> k < length boxes \<longrightarrow> merge_test (boxes ! i) (boxes ! k) thr = Inr False)"
proof (induction boxes thr i j rule: inner_scan.induct)
  case (1 boxes thr i j)
  let ?P = "\<lambda>k. merge_test (boxes ! i) (boxes ! k) thr = Inr False"
  show ?case
  proof (cases "j < length boxes")
    case False
    then have "inner_scan boxes thr i j = Inr None"
      by (simp add: inner_scan.simps [of boxes thr i j])
    moreover from False have "\<forall>k. j \<le> k \<and> k < length boxes \<longrightarrow> ?P k" by auto
    ultimately show ?thesis by simp
  next
    case True
    note j = this
    show ?thesis
    proof (cases "?P j")
      case False
      then have "inner_scan boxes thr i j \<noteq> Inr None"
        using j by (simp add: inner_scan.simps [of boxes thr i j] split: sum.splits bool.splits)
      moreover from False j have "\<not> (\<forall>k. j \<le> k \<and> k < length boxes \<longrightarrow> ?P k)"
        by blast
      ultimately show ?thesis by simp
    next
      case True
      with j have eq: "inner_scan boxes thr i j = inner_scan boxes thr i (Suc j)"
        by (simp add: inner_scan.simps [of boxes thr i j])
      have "(\<forall>k. j \<le> k \<and> k < length boxes \<longrightarrow> ?P k)
           \<longleftrightarrow> (\<forall>k. Suc j \<le> k \<and> k < length boxes \<longrightarrow> ?P k)"
      proof (intro iffI allI impI)
        fix k assume "\<forall>k. j \<le> k \<and> k < length boxes \<longrightarrow> ?P k" and "Suc j \<le> k \<and> k < length boxes"
        then show "?P k" by simp
      next
        fix k assume r: "\<forall>k. Suc j \<le> k \<and> k < length boxes \<longrightarrow> ?P k" and k: "j \<le> k \<and> k < length boxes"
        show "?P k"
        proof (cases "k = j")
          case True
          with \<open>?P j\<close> show ?thesis by simp
        next
          case False
          with k have "Suc j \<le> k \<and> k < length boxes" by simp
          with r show ?thesis by blast
        qed
      qed
      moreover have "inner_scan boxes thr i (Suc j) = Inr None \<longleftrightarrow>
          (\<forall>k. Suc j \<le> k \<and> k < length boxes \<longrightarrow> ?P k)"
        using "1.IH" [OF j True] by simp
      ultimately show ?thesis using eq by simp
    qed
  qed
qed

lemma inner_scan_total:
  "(\<forall>k. j \<le> k \<and> k < length boxes \<longrightarrow> (\<exists>m. merge_test (boxes ! i) (boxes ! k) thr = Inr m))
     \<Longrightarrow> \<exists>r. inner_scan boxes thr i j = Inr r"
proof (induction boxes thr i j rule: inner_scan.induct)
  case (1 boxes thr i j)
  show ?case
  proof (cases "j < length boxes")
    case False
    then show ?thesis by (simp add: inner_scan.simps [of boxes thr i j])
  next
    case True
    note j = this
    with "1.prems" obtain m where m: "merge_test (boxes ! i) (boxes ! j) thr = Inr m" by blast
    show ?thesis
    proof (cases m)
      case True
      with j m show ?thesis by (simp add: inner_scan.simps [of boxes thr i j])
    next
      case False
      from "1.prems" have "\<forall>k. Suc j \<le> k \<and> k < length boxes \<longrightarrow> (\<exists>m. merge_test (boxes ! i) (boxes ! k) thr = Inr m)"
        by simp
      moreover from False have "m = False" by simp
      ultimately have "\<exists>r. inner_scan boxes thr i (Suc j) = Inr r"
        by (rule "1.IH" [OF j m, rotated])
      with j m False show ?thesis
        by (simp add: inner_scan.simps [of boxes thr i j])
    qed
  qed
qed

text \<open>What one pass of the scan returns.\<close>

lemma outer_scan_Some:
  "outer_scan boxes thr i = Inr (Some boxes') \<Longrightarrow>
     \<exists>i' k. i \<le> i' \<and> i' < k \<and> k < length boxes \<and>
         merge_test (boxes ! i') (boxes ! k) thr = Inr True \<and>
         boxes' = pop k (boxes[i' := merge_boxes (boxes ! i') (boxes ! k)])"
proof (induction boxes thr i rule: outer_scan.induct)
  case (1 boxes thr i)
  note unfold = "1.prems" [unfolded outer_scan.simps [of boxes thr i]]
  show ?case
  proof (cases "i < length boxes")
    case False
    with unfold show ?thesis by simp
  next
    case True
    note i = this
    show ?thesis
    proof (cases "inner_scan boxes thr i (Suc i)")
      case (Inl e)
      with unfold i show ?thesis by simp
    next
      case (Inr r)
      show ?thesis
      proof (cases r)
        case None
        with unfold i Inr have "outer_scan boxes thr (Suc i) = Inr (Some boxes')"
          by simp
        from "1.IH" [OF i Inr None this] obtain i' k where
          "Suc i \<le> i' \<and> i' < k \<and> k < length boxes \<and>
           merge_test (boxes ! i') (boxes ! k) thr = Inr True \<and>
           boxes' = pop k (boxes[i' := merge_boxes (boxes ! i') (boxes ! k)])"
          by auto
        then show ?thesis by (intro exI [of _ i'] exI [of _ k]) simp
      next
        case (Some bs)
        with unfold i Inr have "inner_scan boxes thr i (Suc i) = Inr (Some boxes')" by simp
        from inner_scan_Some [OF this] obtain k where
          "Suc i \<le> k \<and> k < length boxes \<and> merge_test (boxes ! i) (boxes ! k) thr = Inr True \<and>
           boxes' = pop k (boxes[i := merge_boxes (boxes ! i) (boxes ! k)])" ..
        then show ?thesis by (intro exI [of _ i] exI [of _ k]) simp
      qed
    qed
  qed
qed

lemma outer_scan_None:
  "outer_scan boxes thr i = Inr None \<longleftrightarrow>
     (\<forall>i' k. i \<le> i' \<and> i' < k \<and> k < length boxes \<longrightarrow>
        merge_test (boxes ! i') (boxes ! k) thr = Inr False)"
proof (induction boxes thr i rule: outer_scan.induct)
  case (1 boxes thr i)
  let ?P = "\<lambda>i' k. merge_test (boxes ! i') (boxes ! k) thr = Inr False"
  let ?row = "\<lambda>i'. \<forall>k. Suc i' \<le> k \<and> k < length boxes \<longrightarrow> ?P i' k"
  show ?case
  proof (cases "i < length boxes")
    case False
    then have "outer_scan boxes thr i = Inr None"
      by (simp add: outer_scan.simps [of boxes thr i])
    moreover from False have "\<forall>i' k. i \<le> i' \<and> i' < k \<and> k < length boxes \<longrightarrow> ?P i' k" by auto
    ultimately show ?thesis by simp
  next
    case True
    note i = this
    show ?thesis
    proof (cases "inner_scan boxes thr i (Suc i) = Inr None")
      case False
      then have "outer_scan boxes thr i \<noteq> Inr None"
        using i by (simp add: outer_scan.simps [of boxes thr i] split: sum.splits option.splits)
      moreover from False have "\<not> ?row i" by (simp add: inner_scan_None)
      then have "\<not> (\<forall>i' k. i \<le> i' \<and> i' < k \<and> k < length boxes \<longrightarrow> ?P i' k)"
        by (metis Suc_le_lessD le_refl)
      ultimately show ?thesis by simp
    next
      case True
      with i have eq: "outer_scan boxes thr i = outer_scan boxes thr (Suc i)"
        by (simp add: outer_scan.simps [of boxes thr i])
      from True have row: "?row i" by (simp add: inner_scan_None)
      have "(\<forall>i' k. i \<le> i' \<and> i' < k \<and> k < length boxes \<longrightarrow> ?P i' k)
           \<longleftrightarrow> (\<forall>i' k. Suc i \<le> i' \<and> i' < k \<and> k < length boxes \<longrightarrow> ?P i' k)"
      proof (intro iffI allI impI)
        fix i' k
        assume "\<forall>i' k. i \<le> i' \<and> i' < k \<and> k < length boxes \<longrightarrow> ?P i' k"
          and "Suc i \<le> i' \<and> i' < k \<and> k < length boxes"
        then show "?P i' k" by simp
      next
        fix i' k
        assume r: "\<forall>i' k. Suc i \<le> i' \<and> i' < k \<and> k < length boxes \<longrightarrow> ?P i' k"
          and k: "i \<le> i' \<and> i' < k \<and> k < length boxes"
        show "?P i' k"
        proof (cases "i' = i")
          case True
          with k have "Suc i \<le> k \<and> k < length boxes" by simp
          with row True show ?thesis by simp
        next
          case False
          with k have "Suc i \<le> i' \<and> i' < k \<and> k < length boxes" by simp
          with r show ?thesis by simp
        qed
      qed
      moreover have "outer_scan boxes thr (Suc i) = Inr None \<longleftrightarrow>
          (\<forall>i' k. Suc i \<le> i' \<and> i' < k \<and> k < length boxes \<longrightarrow> ?P i' k)"
        using "1.IH" [OF i True] by simp
      ultimately show ?thesis using eq by simp
    qed
  qed
qed

lemma outer_scan_total:
  "(\<forall>i' k. i \<le> i' \<and> i' < k \<and> k < length boxes \<longrightarrow>
       (\<exists>m. merge_test (boxes ! i') (boxes ! k) thr = Inr m))
     \<Longrightarrow> \<exists>r. outer_scan boxes thr i = Inr r"
proof (induction boxes thr i rule: outer_scan.induct)
  case (1 boxes thr i)
  show ?case
  proof (cases "i < length boxes")
    case False
    then show ?thesis by (simp add: outer_scan.simps [of boxes thr i])
  next
    case True
    note i = this
    from "1.prems" have "\<forall>k. Suc i \<le> k \<and> k < length boxes \<longrightarrow>
        (\<exists>m. merge_test (boxes ! i) (boxes ! k) thr = Inr m)"
      by simp
    from inner_scan_total [OF this] obtain r where r: "inner_scan boxes thr i (Suc i) = Inr r" ..
    show ?thesis
    proof (cases r)
      case (Some bs)
      with i r show ?thesis by (simp add: outer_scan.simps [of boxes thr i])
    next
      case None
      from "1.prems" have "\<forall>i' k. Suc i \<le> i' \<and> i' < k \<and> k < length boxes \<longrightarrow>
          (\<exists>m. merge_test (boxes ! i') (boxes ! k) thr = Inr m)"
        by simp
      from "1.IH" [OF i r None this] i r None show ?thesis
        by (simp add: outer_scan.simps [of boxes thr i])
    qed
  qed
qed

text \<open>The effect of one merge on the list.\<close>

lemma merge_boxes_contains:
  "box_contains (merge_boxes a b) a" "box_contains (merge_boxes a b) b"
  by (simp_all add: box_contains_def merge_boxes_def)

lemma merge_boxes_area_pos:
  assumes "same_row a b" and "0 < area a" and "0 < area b"
  shows "0 < area (merge_boxes a b)"
proof -
  have ha: "box_y1 a < box_y2 a"
    using same_row_heights [OF assms(1)] by simp
  from assms(2) ha have wa: "box_x1 a < box_x2 a"
    by (simp add: area_def zero_less_mult_iff)
  have "min (box_x1 a) (box_x1 b) < max (box_x2 a) (box_x2 b)"
    using wa by (simp add: min_def max_def)
  moreover have "min (box_y1 a) (box_y1 b) < max (box_y2 a) (box_y2 b)"
    using ha by (simp add: min_def max_def)
  ultimately show ?thesis
    by (simp add: area_def merge_boxes_def)
qed

lemma set_pop_subset: "set (pop k xs) \<subseteq> set xs"
  unfolding pop_def using set_take_subset [of k xs] set_drop_subset [of "Suc k" xs] by auto

lemma nth_in_pop:
  assumes "n < length xs" and "n \<noteq> k"
  shows "xs ! n \<in> set (pop k xs)"
proof (cases "n < k")
  case True
  with assms have "n < length (take k xs)" by simp
  then have "take k xs ! n \<in> set (take k xs)" by (rule nth_mem)
  with True show ?thesis by (simp add: pop_def)
next
  case False
  with assms have le: "Suc k \<le> n" by simp
  with assms have "n - Suc k < length (drop (Suc k) xs)" by simp
  then have "drop (Suc k) xs ! (n - Suc k) \<in> set (drop (Suc k) xs)" by (rule nth_mem)
  moreover from le assms have "drop (Suc k) xs ! (n - Suc k) = xs ! n" by simp
  ultimately show ?thesis by (simp add: pop_def)
qed

text \<open>One merge: every box of the list lies in a box of the new list.\<close>

lemma merge_step_contains:
  assumes "i < k" and "k < length boxes" and "b \<in> set boxes"
  shows "\<exists>c \<in> set (pop k (boxes[i := merge_boxes (boxes ! i) (boxes ! k)])). box_contains c b"
proof -
  let ?u = "merge_boxes (boxes ! i) (boxes ! k)"
  let ?ys = "boxes[i := ?u]"
  from assms obtain n where n: "n < length boxes" "boxes ! n = b"
    by (auto simp: in_set_conv_nth)
  from assms have iu: "?ys ! i = ?u" by simp
  from assms have "?ys ! i \<in> set (pop k ?ys)" by (intro nth_in_pop) simp_all
  with iu have u_in: "?u \<in> set (pop k ?ys)" by simp
  show ?thesis
  proof (cases "n = i \<or> n = k")
    case True
    with n have "box_contains ?u b" using merge_boxes_contains [of "boxes ! i" "boxes ! k"] by auto
    with u_in show ?thesis ..
  next
    case False
    with n have "?ys ! n = b" by simp
    moreover from False n have "?ys ! n \<in> set (pop k ?ys)" by (intro nth_in_pop) simp_all
    moreover have "box_contains b b" by (simp add: box_contains_def)
    ultimately show ?thesis by auto
  qed
qed

lemma merge_step_area_pos:
  assumes "i < k" and "k < length boxes" and "merge_test (boxes ! i) (boxes ! k) thr = Inr True"
    and "\<forall>b \<in> set boxes. 0 < area b"
  shows "\<forall>b \<in> set (pop k (boxes[i := merge_boxes (boxes ! i) (boxes ! k)])). 0 < area b"
proof
  fix b
  let ?u = "merge_boxes (boxes ! i) (boxes ! k)"
  assume "b \<in> set (pop k (boxes[i := ?u]))"
  moreover have "set (pop k (boxes[i := ?u])) \<subseteq> set (boxes[i := ?u])"
    by (rule set_pop_subset)
  moreover have "set (boxes[i := ?u]) \<subseteq> insert ?u (set boxes)"
    by (rule set_update_subset_insert)
  ultimately have "b \<in> insert ?u (set boxes)" by (meson subsetD)
  then have cases: "b = ?u \<or> b \<in> set boxes" by simp
  from assms(1,2,4) have "0 < area (boxes ! i)" and "0 < area (boxes ! k)" by simp_all
  moreover from assms(3) have "same_row (boxes ! i) (boxes ! k)"
    by (rule merge_test_True_same_row)
  ultimately have "0 < area ?u" by (intro merge_boxes_area_pos)
  with cases assms(4) show "0 < area b" by auto
qed

text \<open>A pass that merges, seen from the loop.\<close>

lemma outer_scan_step_pos:
  assumes "outer_scan boxes thr 0 = Inr (Some boxes')" and "\<forall>b \<in> set boxes. 0 < area b"
  shows "\<forall>b \<in> set boxes'. 0 < area b"
proof -
  from outer_scan_Some [OF assms(1)] obtain i k where
    ik: "0 \<le> i \<and> i < k \<and> k < length boxes \<and>
         merge_test (boxes ! i) (boxes ! k) thr = Inr True \<and>
         boxes' = pop k (boxes[i := merge_boxes (boxes ! i) (boxes ! k)])" by auto
  then have "\<forall>b \<in> set (pop k (boxes[i := merge_boxes (boxes ! i) (boxes ! k)])). 0 < area b"
    using assms(2) by (intro merge_step_area_pos [where thr = thr]) simp_all
  with ik show ?thesis by simp
qed

lemma outer_scan_step_contains:
  assumes "outer_scan boxes thr 0 = Inr (Some boxes')" and "b \<in> set boxes"
  shows "\<exists>c \<in> set boxes'. box_contains c b"
proof -
  from outer_scan_Some [OF assms(1)] obtain i k where
    ik: "0 \<le> i \<and> i < k \<and> k < length boxes \<and>
         merge_test (boxes ! i) (boxes ! k) thr = Inr True \<and>
         boxes' = pop k (boxes[i := merge_boxes (boxes ! i) (boxes ! k)])" by auto
  then have "\<exists>c \<in> set (pop k (boxes[i := merge_boxes (boxes ! i) (boxes ! k)])). box_contains c b"
    using assms(2) by (intro merge_step_contains) simp_all
  with ik show ?thesis by simp
qed

lemma outer_scan_pos_total:
  assumes "\<forall>b \<in> set boxes. 0 < area b"
  shows "\<exists>r. outer_scan boxes thr i = Inr r"
proof (rule outer_scan_total, intro allI impI)
  fix i' k assume "i \<le> i' \<and> i' < k \<and> k < length boxes"
  then have "boxes ! i' \<in> set boxes" and "boxes ! k \<in> set boxes" by simp_all
  with assms have "0 < area (boxes ! i')" and "0 < area (boxes ! k)" by simp_all
  then show "\<exists>m. merge_test (boxes ! i') (boxes ! k) thr = Inr m" by (rule merge_test_total)
qed

lemma box_contains_trans:
  "box_contains a b \<Longrightarrow> box_contains b c \<Longrightarrow> box_contains a c"
  by (auto simp: box_contains_def)

text \<open>The three ways one round of the loop ends.\<close>

lemma merge_loop_error: "outer_scan boxes thr 0 = Inl e \<Longrightarrow> merge_loop boxes thr = Inl e"
  by (simp add: merge_loop.simps [of boxes thr])

lemma merge_loop_exit: "outer_scan boxes thr 0 = Inr None \<Longrightarrow> merge_loop boxes thr = Inr boxes"
  by (simp add: merge_loop.simps [of boxes thr])

lemma merge_loop_restart:
  "outer_scan boxes thr 0 = Inr (Some boxes') \<Longrightarrow> merge_loop boxes thr = merge_loop boxes' thr"
  by (simp add: merge_loop.simps [of boxes thr])

lemma merge_loop_pos_total:
  "\<forall>b \<in> set boxes. 0 < area b \<Longrightarrow> \<exists>out. merge_loop boxes thr = Inr out"
proof (induction boxes thr rule: merge_loop.induct)
  case (1 boxes thr)
  from outer_scan_pos_total [OF "1.prems"] obtain r where r: "outer_scan boxes thr 0 = Inr r" ..
  show ?case
  proof (cases r)
    case None
    with r have "merge_loop boxes thr = Inr boxes" by (simp add: merge_loop_exit)
    then show ?thesis ..
  next
    case (Some boxes')
    with r have scan: "outer_scan boxes thr 0 = Inr (Some boxes')" by simp
    then have "\<forall>b \<in> set boxes'. 0 < area b" using "1.prems" by (rule outer_scan_step_pos)
    with "1.IH" [OF r Some] have "\<exists>out. merge_loop boxes' thr = Inr out" .
    with scan show ?thesis by (simp add: merge_loop_restart)
  qed
qed

lemma merge_loop_fixpoint:
  "merge_loop boxes thr = Inr out \<Longrightarrow> outer_scan out thr 0 = Inr None"
proof (induction boxes thr rule: merge_loop.induct)
  case (1 boxes thr)
  show ?case
  proof (cases "outer_scan boxes thr 0")
    case (Inl e)
    with "1.prems" show ?thesis by (simp add: merge_loop_error)
  next
    case (Inr r)
    show ?thesis
    proof (cases r)
      case None
      with Inr "1.prems" have "out = boxes" by (simp add: merge_loop_exit)
      with Inr None show ?thesis by simp
    next
      case (Some boxes')
      with Inr "1.prems" have "merge_loop boxes' thr = Inr out" by (simp add: merge_loop_restart)
      with "1.IH" [OF Inr Some] show ?thesis .
    qed
  qed
qed

lemma merge_loop_length:
  "merge_loop boxes thr = Inr out \<Longrightarrow> length out \<le> length boxes"
proof (induction boxes thr rule: merge_loop.induct)
  case (1 boxes thr)
  show ?case
  proof (cases "outer_scan boxes thr 0")
    case (Inl e)
    with "1.prems" show ?thesis by (simp add: merge_loop_error)
  next
    case (Inr r)
    show ?thesis
    proof (cases r)
      case None
      with Inr "1.prems" show ?thesis by (simp add: merge_loop_exit)
    next
      case (Some boxes')
      with Inr have scan: "outer_scan boxes thr 0 = Inr (Some boxes')" by simp
      with "1.prems" have "merge_loop boxes' thr = Inr out" by (simp add: merge_loop_restart)
      with "1.IH" [OF Inr Some] have "length out \<le> length boxes'" .
      with outer_scan_length [OF scan] show ?thesis by simp
    qed
  qed
qed

lemma merge_loop_contains:
  "merge_loop boxes thr = Inr out \<Longrightarrow> b \<in> set boxes \<Longrightarrow> \<exists>c \<in> set out. box_contains c b"
proof (induction boxes thr arbitrary: b rule: merge_loop.induct)
  case (1 boxes thr)
  show ?case
  proof (cases "outer_scan boxes thr 0")
    case (Inl e)
    with "1.prems" show ?thesis by (simp add: merge_loop_error)
  next
    case (Inr r)
    show ?thesis
    proof (cases r)
      case None
      with Inr "1.prems" have "out = boxes" by (simp add: merge_loop_exit)
      moreover have "box_contains b b" by (simp add: box_contains_def)
      ultimately show ?thesis using "1.prems"(2) by auto
    next
      case (Some boxes')
      with Inr have scan: "outer_scan boxes thr 0 = Inr (Some boxes')" by simp
      with "1.prems" have loop: "merge_loop boxes' thr = Inr out" by (simp add: merge_loop_restart)
      from outer_scan_step_contains [OF scan "1.prems"(2)] obtain c where
        c: "c \<in> set boxes'" "box_contains c b" ..
      from "1.IH" [OF Inr Some loop c(1)] obtain d where
        d: "d \<in> set out" "box_contains d c" ..
      from d(2) c(2) have "box_contains d b" by (rule box_contains_trans)
      with d(1) show ?thesis ..
    qed
  qed
qed

text \<open>The same facts for \<open>merge_overlapping_boxes\<close>, with its early return.\<close>

lemma merge_overlapping_boxes_total:
  assumes "\<forall>b \<in> set boxes. 0 < area b"
  shows "\<exists>out. merge_overlapping_boxes boxes thr = Inr out"
proof (cases "length boxes \<le> 1")
  case True
  then have "merge_overlapping_boxes boxes thr = Inr boxes"
    by (simp add: merge_overlapping_boxes_def)
  then show ?thesis ..
next
  case False
  with merge_loop_pos_total [OF assms, of thr] show ?thesis
    by (simp add: merge_overlapping_boxes_def)
qed

lemma merge_overlapping_boxes_fixpoint:
  assumes "merge_overlapping_boxes boxes thr = Inr out"
  shows "outer_scan out thr 0 = Inr None"
proof (cases "length boxes \<le> 1")
  case True
  with assms have "out = boxes" by (simp add: merge_overlapping_boxes_def)
  with True have "\<forall>i' k. 0 \<le> i' \<and> i' < k \<and> k < length out \<longrightarrow>
      merge_test (out ! i') (out ! k) thr = Inr False"
    by auto
  then show ?thesis by (simp add: outer_scan_None)
next
  case False
  with assms have "merge_loop boxes thr = Inr out" by (simp add: merge_overlapping_boxes_def)
  then show ?thesis by (rule merge_loop_fixpoint)
qed

lemma merge_overlapping_boxes_again:
  assumes "merge_overlapping_boxes boxes thr = Inr out"
  shows "merge_overlapping_boxes out thr = Inr out"
proof (cases "length out \<le> 1")
  case True
  then show ?thesis by (simp add: merge_overlapping_boxes_def)
next
  case False
  from assms have "outer_scan out thr 0 = Inr None" by (rule merge_overlapping_boxes_fixpoint)
  then have "merge_loop out thr = Inr out" by (rule merge_loop_exit)
  with False show ?thesis by (simp add: merge_overlapping_boxes_def)
qed

lemma merge_overlapping_boxes_length:
  assumes "merge_overlapping_boxes boxes thr = Inr out"
  shows "length out \<le> length boxes"
proof (cases "length boxes \<le> 1")
  case True
  with assms show ?thesis by (simp add: merge_overlapping_boxes_def)
next
  case False
  with assms have "merge_loop boxes thr = Inr out" by (simp add: merge_overlapping_boxes_def)
  then show ?thesis by (rule merge_loop_length)
qed

lemma merge_overlapping_boxes_contains:
  assumes "merge_overlapping_boxes boxes thr = Inr out" and "b \<in> set boxes"
  shows "\<exists>c \<in> set out. box_contains c b"
proof (cases "length boxes \<le> 1")
  case True
  with assms have "out = boxes" by (simp add: merge_overlapping_boxes_def)
  moreover have "box_contains b b" by (simp add: box_contains_def)
  ultimately show ?thesis using assms(2) by auto
next
  case False
  with assms have "merge_loop boxes thr = Inr out" by (simp add: merge_overlapping_boxes_def)
  then show ?thesis using assms(2) by (rule merge_loop_contains)
qed

section \<open>Evaluation of the merge on concrete lists\<close>

lemmas merge_eval =
  merge_overlapping_boxes_def merge_loop.simps outer_scan.simps inner_scan.simps
  merge_test_def same_row_def overlap_ratio_def merge_boxes_def pop_def Let_def

section \<open>Properties of the reading order\<close>

lemma mset_py_sort: "mset (py_sort key reverse xs) = mset xs"
  by (simp add: py_sort_def)

lemma length_py_sort: "length (py_sort key reverse xs) = length xs"
  by (simp add: py_sort_def)

lemma concat_cluster_loop:
  "concat (cluster_loop rest clusters current_cluster) = concat clusters @ current_cluster @ rest"
  by (induction rest arbitrary: clusters current_cluster) simp_all

lemma concat_row_clusters: "concat (row_clusters boxes) = boxes"
  by (cases boxes) (simp_all add: concat_cluster_loop)

lemma mset_concat_py_sort:
  "mset (concat (map (py_sort key reverse) clusters)) = mset (concat clusters)"
  by (induction clusters) (simp_all add: mset_py_sort)

lemma mset_xy_cut_sort: "mset (xy_cut_sort boxes rtl) = mset boxes"
proof (cases "length boxes \<le> 1")
  case True
  then show ?thesis by (simp add: xy_cut_sort_def)
next
  case False
  then have "mset (xy_cut_sort boxes rtl) = mset (concat (row_clusters (py_sort box_y1 False boxes)))"
    by (simp add: xy_cut_sort_def mset_concat_py_sort)
  also have "\<dots> = mset (py_sort box_y1 False boxes)" by (simp add: concat_row_clusters)
  also have "\<dots> = mset boxes" by (rule mset_py_sort)
  finally show ?thesis .
qed

lemma length_xy_cut_sort: "length (xy_cut_sort boxes rtl) = length boxes"
  using mset_xy_cut_sort [of boxes rtl] by (rule mset_eq_length)

lemma index_reading_order:
  "map index (reading_order final_output_boxes) = map int [1..<Suc (length final_output_boxes)]"
proof -
  have "map index (reading_order final_output_boxes)
      = map ((\<lambda>i. int i + 1) \<circ> fst) (enumerate 0 final_output_boxes)"
    by (simp add: reading_order_def case_prod_unfold comp_def)
  also have "\<dots> = map (\<lambda>i. int i + 1) (map fst (enumerate 0 final_output_boxes))"
    by (simp only: map_map)
  also have "\<dots> = map (\<lambda>i. int i + 1) [0..<length final_output_boxes]"
    by (simp only: map_fst_enumerate add_0)
  also have "\<dots> = map int (map Suc [0..<length final_output_boxes])" by simp
  also have "map Suc [0..<length final_output_boxes] = [1..<Suc (length final_output_boxes)]"
    by (simp only: map_Suc_upt One_nat_def)
  finally show ?thesis .
qed

text \<open>The rows that the clustering loop forms.\<close>

lemma cluster_loop_nonempty:
  "current_cluster \<noteq> [] \<Longrightarrow> [] \<notin> set clusters \<Longrightarrow>
     [] \<notin> set (cluster_loop rest clusters current_cluster)"
  by (induction rest arbitrary: clusters current_cluster) simp_all

lemma cluster_loop_within:
  "successively (\<lambda>u v. \<not> starts_new_row u v) current_cluster \<Longrightarrow>
   \<forall>c \<in> set clusters. successively (\<lambda>u v. \<not> starts_new_row u v) c \<Longrightarrow>
   \<forall>c \<in> set (cluster_loop rest clusters current_cluster).
      successively (\<lambda>u v. \<not> starts_new_row u v) c"
proof (induction rest arbitrary: clusters current_cluster)
  case Nil
  then show ?case by simp
next
  case (Cons b rest)
  show ?case
  proof (cases "starts_new_row (last current_cluster) b")
    case True
    have "\<forall>c \<in> set (cluster_loop rest (clusters @ [current_cluster]) [b]).
        successively (\<lambda>u v. \<not> starts_new_row u v) c"
      using Cons.prems by (intro Cons.IH) simp_all
    with True show ?thesis by simp
  next
    case False
    then have "successively (\<lambda>u v. \<not> starts_new_row u v) (current_cluster @ [b])"
      using Cons.prems(1) by (simp add: successively_append_iff)
    then have "\<forall>c \<in> set (cluster_loop rest clusters (current_cluster @ [b])).
        successively (\<lambda>u v. \<not> starts_new_row u v) c"
      using Cons.prems(2) by (rule Cons.IH)
    with False show ?thesis by simp
  qed
qed

lemma cluster_loop_between:
  "current_cluster \<noteq> [] \<Longrightarrow>
   successively (\<lambda>c c'. starts_new_row (last c) (hd c')) (clusters @ [current_cluster]) \<Longrightarrow>
   successively (\<lambda>c c'. starts_new_row (last c) (hd c'))
     (cluster_loop rest clusters current_cluster)"
proof (induction rest arbitrary: clusters current_cluster)
  case Nil
  then show ?case by simp
next
  case (Cons b rest)
  let ?R = "\<lambda>c c'. starts_new_row (last c) (hd c')"
  show ?case
  proof (cases "starts_new_row (last current_cluster) b")
    case True
    then have "successively ?R ((clusters @ [current_cluster]) @ [[b]])"
      using Cons.prems(2) by (simp add: successively_append_iff)
    then have "successively ?R (cluster_loop rest (clusters @ [current_cluster]) [b])"
      by (intro Cons.IH) simp_all
    with True show ?thesis by simp
  next
    case False
    have "successively ?R (clusters @ [current_cluster @ [b]])"
      using Cons.prems by (simp add: successively_append_iff)
    then have "successively ?R (cluster_loop rest clusters (current_cluster @ [b]))"
      by (intro Cons.IH) simp_all
    with False show ?thesis by simp
  qed
qed

section \<open>Properties of the inclusion expander\<close>

lemma py_int_mono: "a \<le> b \<Longrightarrow> py_int a \<le> py_int b"
proof -
  assume ab: "a \<le> b"
  have fl: "\<lfloor>a\<rfloor> \<le> \<lfloor>b\<rfloor>" and ce: "\<lceil>a\<rceil> \<le> \<lceil>b\<rceil>"
    using ab by (simp_all add: floor_mono ceiling_mono)
  show ?thesis
  proof (cases "a < 0")
    case True
    note a = this
    show ?thesis
    proof (cases "b < 0")
      case True
      with a ce show ?thesis by (simp add: py_int_def)
    next
      case False
      from a have "\<lceil>a\<rceil> \<le> 0" by (simp add: ceiling_le_iff)
      moreover from False have "0 \<le> \<lfloor>b\<rfloor>" by simp
      ultimately have "\<lceil>a\<rceil> \<le> \<lfloor>b\<rfloor>" by linarith
      with a False show ?thesis by (simp add: py_int_def)
    qed
  next
    case False
    with ab have "\<not> b < 0" by simp
    with False fl show ?thesis by (simp add: py_int_def)
  qed
qed

lemma py_int_of_int: "py_int (of_int n) = n"
  by (simp add: py_int_def)

lemma py_int_Ints: "c \<in> \<int> \<Longrightarrow> of_int (py_int c) = c"
  by (auto simp: py_int_def elim: Ints_cases)

lemma expand_step_grows: "box_contains (expand_step panel_box idxs e acc) acc"
  by (cases e) (simp add: expand_step_def box_contains_def)

lemma expand_step_covers:
  "int t_idx \<in> set idxs \<or> boxes_overlap panel_box text_box 5 \<Longrightarrow>
     box_contains (expand_step panel_box idxs (t_idx, text_box) acc) text_box"
  by (simp add: expand_step_def box_contains_def)

lemma fold_expand_grows:
  "box_contains (fold (expand_step panel_box idxs) es acc) acc"
proof (induction es arbitrary: acc)
  case Nil
  show ?case by (simp add: box_contains_def)
next
  case (Cons e es)
  have "box_contains (fold (expand_step panel_box idxs) es (expand_step panel_box idxs e acc))
      (expand_step panel_box idxs e acc)" by (rule Cons.IH)
  moreover have "box_contains (expand_step panel_box idxs e acc) acc" by (rule expand_step_grows)
  ultimately show ?case by (simp add: box_contains_trans)
qed

lemma fold_expand_covers:
  assumes "(t_idx, text_box) \<in> set es"
    and "int t_idx \<in> set idxs \<or> boxes_overlap panel_box text_box 5"
  shows "box_contains (fold (expand_step panel_box idxs) es acc) text_box"
  using assms(1)
proof (induction es arbitrary: acc)
  case Nil
  then show ?case by simp
next
  case (Cons e es)
  show ?case
  proof (cases "e = (t_idx, text_box)")
    case True
    have "box_contains (fold (expand_step panel_box idxs) es (expand_step panel_box idxs e acc))
        (expand_step panel_box idxs e acc)" by (rule fold_expand_grows)
    moreover from True assms(2) have "box_contains (expand_step panel_box idxs e acc) text_box"
      by (simp add: expand_step_covers)
    ultimately show ?thesis by (simp add: box_contains_trans)
  next
    case False
    with Cons.prems have "(t_idx, text_box) \<in> set es" by simp
    then show ?thesis by (simp add: Cons.IH)
  qed
qed

lemma expand_panel_expanded:
  "expand_panel texts associations p_idx panel_box =
     map_box py_int (expanded texts associations p_idx panel_box)"
  by (cases "expanded texts associations p_idx panel_box")
     (simp add: expand_panel_def expanded_def Let_def)

lemma expanded_covers_associated:
  assumes "j < length texts" and "(int i, int j) \<in> set associations"
  shows "box_contains (expanded texts associations i panel_box) (texts ! j)"
proof -
  from assms(1) have mem: "(j, texts ! j) \<in> set (enumerate 0 texts)"
    by (simp add: in_set_enumerate_eq)
  from assms(2) have "int j \<in> set (map snd (filter (\<lambda>a. fst a = int i) associations))"
    by force
  then have "int j \<in> set (map snd (filter (\<lambda>a. fst a = int i) associations))
      \<or> boxes_overlap panel_box (texts ! j) 5" ..
  with mem show ?thesis unfolding expanded_def by (rule fold_expand_covers)
qed

lemma get_inclusive_panels_nth:
  assumes "i < length panels"
  shows "get_inclusive_panels panels texts associations = Inr out \<Longrightarrow>
     out ! i = expand_panel texts associations i (panels ! i)"
  using assms by (auto simp: get_inclusive_panels_def nth_enumerate_eq)

lemma get_inclusive_panels_total:
  "\<exists>out. get_inclusive_panels panels texts associations = Inr out \<and> length out = length panels"
  by (simp add: get_inclusive_panels_def)

text \<open>Associations that point outside the two lists.\<close>

lemma associated_index_iff:
  "int t \<in> set (map snd (filter (\<lambda>a. fst a = int p) associations))
     \<longleftrightarrow> (int p, int t) \<in> set associations"
  by force

lemma associated_index_in_range:
  assumes "p < length panels" and "t < length texts"
  shows "int t \<in> set (map snd (filter (\<lambda>a. fst a = int p)
                          (filter (assoc_in_range panels texts) associations)))
     \<longleftrightarrow> int t \<in> set (map snd (filter (\<lambda>a. fst a = int p) associations))"
proof -
  from assms have "assoc_in_range panels texts (int p, int t)"
    by (simp add: assoc_in_range_def)
  then have "(int p, int t) \<in> set (filter (assoc_in_range panels texts) associations)
      \<longleftrightarrow> (int p, int t) \<in> set associations" by simp
  then show ?thesis by (simp only: associated_index_iff)
qed

lemma expanded_ignores_out_of_range:
  assumes "p < length panels"
  shows "expanded texts (filter (assoc_in_range panels texts) associations) p panel_box
       = expanded texts associations p panel_box"
  unfolding expanded_def
proof (rule fold_cong [OF refl refl])
  fix e assume mem: "e \<in> set (enumerate 0 texts)"
  obtain t text_box where e: "e = (t, text_box)" by (cases e)
  from mem have t: "t < length texts" unfolding e by (simp add: in_set_enumerate_eq)
  from associated_index_in_range [OF assms t, of associations]
  show "expand_step panel_box
          (map snd (filter (\<lambda>a. fst a = int p) (filter (assoc_in_range panels texts) associations))) e
      = expand_step panel_box (map snd (filter (\<lambda>a. fst a = int p) associations)) e"
    unfolding e expand_step_def by (simp only: prod.case)
qed

lemma get_inclusive_panels_ignores_out_of_range:
  "get_inclusive_panels panels texts (filter (assoc_in_range panels texts) associations)
     = get_inclusive_panels panels texts associations"
proof -
  have "map (\<lambda>(p_idx, panel_box).
            expand_panel texts (filter (assoc_in_range panels texts) associations) p_idx panel_box)
          (enumerate 0 panels)
      = map (\<lambda>(p_idx, panel_box). expand_panel texts associations p_idx panel_box)
          (enumerate 0 panels)"
  proof (rule map_cong [OF refl])
    fix e assume mem: "e \<in> set (enumerate 0 panels)"
    obtain p panel_box where e: "e = (p, panel_box)" by (cases e)
    from mem have p: "p < length panels" unfolding e by (simp add: in_set_enumerate_eq)
    from expanded_ignores_out_of_range [OF p, of texts associations panel_box]
    show "(case e of (p_idx, panel_box) \<Rightarrow>
              expand_panel texts (filter (assoc_in_range panels texts) associations) p_idx panel_box)
        = (case e of (p_idx, panel_box) \<Rightarrow> expand_panel texts associations p_idx panel_box)"
      unfolding e by (simp add: expand_panel_expanded)
  qed
  then show ?thesis by (simp only: get_inclusive_panels_def)
qed

section \<open>Properties of the shrink-wrap step\<close>

lemma set_ink_positions:
  "set (ink_positions roi) = {(x, y). y < length roi \<and> x < length (roi ! y) \<and> roi ! y ! x \<le> 245}"
  by (auto simp: ink_positions_def)

lemma enumerate_upt: "enumerate 0 xs = map (\<lambda>k. (k, xs ! k)) [0..<length xs]"
  using enumerate_map_upt [of 0 "nth xs" "length xs"] by (simp add: map_nth)

lemma nonzero_points_upt:
  "nonzero_points m =
     concat (map (\<lambda>y. map (\<lambda>x. (x, y)) (filter (\<lambda>x. m ! y ! x \<noteq> 0) [0..<length (m ! y)]))
               [0..<length m])"
  by (simp add: nonzero_points_def enumerate_upt filter_map comp_def)

lemma set_nonzero_points:
  "set (nonzero_points m) = {(x, y). y < length m \<and> x < length (m ! y) \<and> m ! y ! x \<noteq> 0}"
  by (auto simp: nonzero_points_upt)

lemma threshold_nth:
  assumes "y < length roi" and "x < length (roi ! y)"
  shows "binary_inv_mask roi 245 255 ! y ! x \<noteq> 0 \<longleftrightarrow> roi ! y ! x \<le> 245"
proof (cases "roi ! y ! x \<le> 245")
  case True
  then have "\<not> 245 < roi ! y ! x" by (simp only: not_less)
  with assms True show ?thesis by (simp add: binary_inv_mask_def)
next
  case False
  then have "245 < roi ! y ! x" by (simp only: not_le)
  with assms False show ?thesis by (simp add: binary_inv_mask_def)
qed

lemma length_threshold: "length (binary_inv_mask roi t m) = length roi"
  by (simp add: binary_inv_mask_def)

lemma length_threshold_row:
  "y < length roi \<Longrightarrow> length (binary_inv_mask roi t m ! y) = length (roi ! y)"
  by (simp add: binary_inv_mask_def)

lemma set_nonzero_threshold:
  "set (nonzero_points (binary_inv_mask roi 245 255)) = set (ink_positions roi)"
proof -
  have "(y < length roi \<and> x < length (binary_inv_mask roi 245 255 ! y)
          \<and> binary_inv_mask roi 245 255 ! y ! x \<noteq> 0)
      \<longleftrightarrow> (y < length roi \<and> x < length (roi ! y) \<and> roi ! y ! x \<le> 245)" for x y
    using threshold_nth [of y roi x] length_threshold_row [of y roi 245 255] by auto
  then show ?thesis
    unfolding set_nonzero_points set_ink_positions length_threshold by simp
qed

lemma fold_min_Min: "fold min xs (x::nat) = Min (set (x # xs))"
  by (simp only: Min.set_eq_fold)

lemma fold_max_Max: "fold max xs (x::nat) = Max (set (x # xs))"
  by (simp only: Max.set_eq_fold)

lemma boundingRect_Min_Max:
  assumes "pts \<noteq> []"
  shows "boundingRect pts =
     (Min (fst ` set pts), Min (snd ` set pts),
      Max (fst ` set pts) - Min (fst ` set pts) + 1,
      Max (snd ` set pts) - Min (snd ` set pts) + 1)"
proof -
  from assms obtain p ps where pts: "pts = p # ps" by (cases pts) auto
  have "fold min (map fst ps) (fst p) = Min (fst ` set pts)"
    and "fold max (map fst ps) (fst p) = Max (fst ` set pts)"
    and "fold min (map snd ps) (snd p) = Min (snd ` set pts)"
    and "fold max (map snd ps) (snd p) = Max (snd ` set pts)"
    unfolding pts fold_min_Min fold_max_Max by simp_all
  then show ?thesis unfolding pts by (simp add: Let_def)
qed

text \<open>Slices with non-negative bounds.\<close>

lemma length_py_slice_le:
  assumes "0 \<le> lo" and "0 \<le> hi"
  shows "length (py_slice lo hi xs) \<le> nat hi - nat lo"
  using assms by (simp add: py_slice_def slice_bound_def Let_def)

lemma py_slice_in_bounds:
  assumes "0 \<le> lo" and "lo \<le> hi" and "hi \<le> int (length xs)"
  shows "py_slice lo hi xs = take (nat hi - nat lo) (drop (nat lo) xs)"
proof -
  from assms have "slice_bound lo (length xs) = nat lo" and "slice_bound hi (length xs) = nat hi"
    by (simp_all add: slice_bound_def)
  then show ?thesis by (simp add: py_slice_def Let_def)
qed

lemma length_crop_le:
  assumes "0 \<le> y1" and "0 \<le> y2"
  shows "length (crop img x1 y1 x2 y2) \<le> nat y2 - nat y1"
  using length_py_slice_le [OF assms, of img] by (simp add: crop_def)

lemma length_crop_row_le:
  assumes "0 \<le> x1" and "0 \<le> x2" and "y < length (crop img x1 y1 x2 y2)"
  shows "length (crop img x1 y1 x2 y2 ! y) \<le> nat x2 - nat x1"
proof -
  from assms(3) have "crop img x1 y1 x2 y2 ! y = py_slice x1 x2 (py_slice y1 y2 img ! y)"
    by (simp add: crop_def)
  with length_py_slice_le [OF assms(1,2)] show ?thesis by simp
qed

lemma crop_in_bounds:
  assumes "0 \<le> x1" "x1 \<le> x2" "0 \<le> y1" "y1 \<le> y2"
    and "y2 \<le> int (length img)" and "\<forall>row \<in> set img. x2 \<le> int (length row)"
  shows "length (crop img x1 y1 x2 y2) = nat (y2 - y1)"
    and "\<forall>y < nat (y2 - y1). length (crop img x1 y1 x2 y2 ! y) = nat (x2 - x1)"
    and "\<forall>y < nat (y2 - y1). \<forall>x < nat (x2 - x1).
           crop img x1 y1 x2 y2 ! y ! x = img ! (nat y1 + y) ! (nat x1 + x)"
proof -
  have rows: "py_slice y1 y2 img = take (nat y2 - nat y1) (drop (nat y1) img)"
    using assms(3,4,5) by (rule py_slice_in_bounds)
  from assms(3,4,5) have len: "length (py_slice y1 y2 img) = nat (y2 - y1)"
    unfolding rows by simp
  then show "length (crop img x1 y1 x2 y2) = nat (y2 - y1)" by (simp add: crop_def)
  have row: "crop img x1 y1 x2 y2 ! y = take (nat x2 - nat x1) (drop (nat x1) (img ! (nat y1 + y)))"
    and rowlen: "x2 \<le> int (length (img ! (nat y1 + y)))"
    if y: "y < nat (y2 - y1)" for y
  proof -
    from y assms(3,4,5) have in_img: "nat y1 + y < length img" by simp
    then have "img ! (nat y1 + y) \<in> set img" by (rule nth_mem)
    with assms(6) show fits: "x2 \<le> int (length (img ! (nat y1 + y)))" by simp
    from y len have "crop img x1 y1 x2 y2 ! y = py_slice x1 x2 (py_slice y1 y2 img ! y)"
      by (simp add: crop_def)
    also from y in_img assms(3,4) have "py_slice y1 y2 img ! y = img ! (nat y1 + y)"
      unfolding rows by simp
    also have "py_slice x1 x2 (img ! (nat y1 + y))
        = take (nat x2 - nat x1) (drop (nat x1) (img ! (nat y1 + y)))"
      using assms(1,2) fits by (rule py_slice_in_bounds)
    finally show "crop img x1 y1 x2 y2 ! y
        = take (nat x2 - nat x1) (drop (nat x1) (img ! (nat y1 + y)))" .
  qed
  show "\<forall>y < nat (y2 - y1). length (crop img x1 y1 x2 y2 ! y) = nat (x2 - x1)"
  proof (intro allI impI)
    fix y assume y: "y < nat (y2 - y1)"
    from rowlen [OF y] assms(1,2) show "length (crop img x1 y1 x2 y2 ! y) = nat (x2 - x1)"
      unfolding row [OF y] by simp
  qed
  show "\<forall>y < nat (y2 - y1). \<forall>x < nat (x2 - x1).
           crop img x1 y1 x2 y2 ! y ! x = img ! (nat y1 + y) ! (nat x1 + x)"
  proof (intro allI impI)
    fix y x assume y: "y < nat (y2 - y1)" and x: "x < nat (x2 - x1)"
    from rowlen [OF y] x assms(1,2) show "crop img x1 y1 x2 y2 ! y ! x = img ! (nat y1 + y) ! (nat x1 + x)"
      unfolding row [OF y] by simp
  qed
qed

lemma ink_positions_in_crop:
  assumes "0 \<le> x1" "0 \<le> x2" "0 \<le> y1" "0 \<le> y2"
    and "(x, y) \<in> set (ink_positions (crop img x1 y1 x2 y2))"
  shows "x < nat x2 - nat x1" and "y < nat y2 - nat y1"
proof -
  let ?roi = "crop img x1 y1 x2 y2"
  from assms(5) have y: "y < length ?roi" and x: "x < length (?roi ! y)"
    by (simp_all add: set_ink_positions)
  from y length_crop_le [OF assms(3,4), of img x1 x2] show "y < nat y2 - nat y1" by simp
  from x length_crop_row_le [OF assms(1,2) y] show "x < nat x2 - nat x1" by simp
qed

lemma ink_positions_crop_nonempty:
  assumes "ink_positions roi \<noteq> []"
  shows "concat roi \<noteq> []"
proof -
  from assms obtain x y where "(x, y) \<in> set (ink_positions roi)"
    by (cases "ink_positions roi") auto
  then have y: "y < length roi" and x: "x < length (roi ! y)"
    by (simp_all add: set_ink_positions)
  from y have "roi ! y \<in> set roi" by (rule nth_mem)
  moreover from x have "roi ! y \<noteq> []" by auto
  ultimately show ?thesis by auto
qed

lemma shrink_wrap_empty_crop:
  assumes "concat (crop img x1 y1 x2 y2) = []"
  shows "shrink_wrap img (Box (of_int x1) (of_int y1) (of_int x2) (of_int y2)) = Inl Cv2Error"
proof -
  from assms have "threshold_binary_inv (crop img x1 y1 x2 y2) 245 255 = None"
    by (simp add: threshold_binary_inv_def)
  then have "findNonZero (threshold_binary_inv (crop img x1 y1 x2 y2) 245 255) = Inl Cv2Error"
    by (simp add: findNonZero_def)
  then show ?thesis by (simp add: shrink_wrap_def py_int_of_int Let_def)
qed

lemma shrink_wrap_no_ink:
  assumes "concat (crop img x1 y1 x2 y2) \<noteq> []"
    and "ink_positions (crop img x1 y1 x2 y2) = []"
  shows "shrink_wrap img (Box (of_int x1) (of_int y1) (of_int x2) (of_int y2))
       = Inr (Box x1 y1 x2 y2)"
proof -
  let ?roi = "crop img x1 y1 x2 y2"
  from assms(1) have mask: "threshold_binary_inv ?roi 245 255 = Some (binary_inv_mask ?roi 245 255)"
    by (simp add: threshold_binary_inv_def)
  from assms(2) have "set (nonzero_points (binary_inv_mask ?roi 245 255)) = {}"
    by (simp add: set_nonzero_threshold)
  then have "findNonZero (threshold_binary_inv ?roi 245 255) = Inr None"
    by (simp add: findNonZero_def mask)
  then show ?thesis by (simp add: shrink_wrap_def py_int_of_int Let_def)
qed

lemma shrink_wrap_ink:
  assumes "ink_positions (crop img x1 y1 x2 y2) \<noteq> []"
  shows "shrink_wrap img (Box (of_int x1) (of_int y1) (of_int x2) (of_int y2))
       = Inr (translate x1 y1 (ink_rectangle (crop img x1 y1 x2 y2)))"
proof -
  let ?roi = "crop img x1 y1 x2 y2"
  let ?pts = "nonzero_points (binary_inv_mask ?roi 245 255)"
  let ?ink = "set (ink_positions ?roi)"
  from assms have "concat ?roi \<noteq> []" by (rule ink_positions_crop_nonempty)
  then have mask: "threshold_binary_inv ?roi 245 255 = Some (binary_inv_mask ?roi 245 255)"
    by (simp add: threshold_binary_inv_def)
  have same: "set ?pts = ?ink" by (rule set_nonzero_threshold)
  from assms have "?ink \<noteq> {}" by simp
  with same have ne: "?pts \<noteq> []" by auto
  then have found: "findNonZero (threshold_binary_inv ?roi 245 255) = Inr (Some ?pts)"
    by (simp add: findNonZero_def mask)
  have fin: "finite (fst ` ?ink)" "finite (snd ` ?ink)" by simp_all
  from \<open>?ink \<noteq> {}\<close> have nonempty: "fst ` ?ink \<noteq> {}" "snd ` ?ink \<noteq> {}" by simp_all
  have "Min (fst ` ?ink) \<le> Max (fst ` ?ink)"
    using fin(1) nonempty(1) by (intro Min_le Max_in)
  then have xs: "int (Min (fst ` ?ink)) + int (Max (fst ` ?ink) - Min (fst ` ?ink) + 1)
      = int (Max (fst ` ?ink) + 1)" by simp
  have "Min (snd ` ?ink) \<le> Max (snd ` ?ink)"
    using fin(2) nonempty(2) by (intro Min_le Max_in)
  then have ys: "int (Min (snd ` ?ink)) + int (Max (snd ` ?ink) - Min (snd ` ?ink) + 1)
      = int (Max (snd ` ?ink) + 1)" by simp
  have rect: "boundingRect ?pts =
     (Min (fst ` ?ink), Min (snd ` ?ink),
      Max (fst ` ?ink) - Min (fst ` ?ink) + 1,
      Max (snd ` ?ink) - Min (snd ` ?ink) + 1)"
    using boundingRect_Min_Max [OF ne] unfolding same .
  have "shrink_wrap img (Box (of_int x1) (of_int y1) (of_int x2) (of_int y2))
      = Inr (Box (x1 + int (Min (fst ` ?ink))) (y1 + int (Min (snd ` ?ink)))
            (x1 + int (Min (fst ` ?ink)) + int (Max (fst ` ?ink) - Min (fst ` ?ink) + 1))
            (y1 + int (Min (snd ` ?ink)) + int (Max (snd ` ?ink) - Min (snd ` ?ink) + 1)))"
    by (simp add: shrink_wrap_def py_int_of_int Let_def found rect)
  also have "\<dots> = Inr (translate x1 y1 (ink_rectangle ?roi))"
    using xs ys by (simp add: translate_def ink_rectangle_def Let_def)
  finally show ?thesis .
qed

lemma ink_rectangle_in_crop:
  assumes "0 \<le> x1" "x1 \<le> x2" "0 \<le> y1" "y1 \<le> y2"
    and "ink_positions (crop img x1 y1 x2 y2) \<noteq> []"
  shows "box_contains (Box x1 y1 x2 y2) (translate x1 y1 (ink_rectangle (crop img x1 y1 x2 y2)))"
proof -
  let ?ink = "set (ink_positions (crop img x1 y1 x2 y2))"
  from assms have nn: "0 \<le> x2" "0 \<le> y2" by simp_all
  from assms(5) have "?ink \<noteq> {}" by simp
  then have "Max (fst ` ?ink) \<in> fst ` ?ink" and "Max (snd ` ?ink) \<in> snd ` ?ink"
    by (simp_all add: Max_in)
  then obtain px py qx qy where p: "(px, py) \<in> ?ink" "px = Max (fst ` ?ink)"
      and q: "(qx, qy) \<in> ?ink" "qy = Max (snd ` ?ink)"
    by force
  from ink_positions_in_crop(1) [OF assms(1) nn(1) assms(3) nn(2) p(1)] p(2)
  have "Max (fst ` ?ink) < nat x2 - nat x1" by simp
  with assms(1,2) have x: "x1 + int (Max (fst ` ?ink) + 1) \<le> x2" by simp
  from ink_positions_in_crop(2) [OF assms(1) nn(1) assms(3) nn(2) q(1)] q(2)
  have "Max (snd ` ?ink) < nat y2 - nat y1" by simp
  with assms(3,4) have y: "y1 + int (Max (snd ` ?ink) + 1) \<le> y2" by simp
  from x y show ?thesis
    by (simp add: box_contains_def translate_def ink_rectangle_def Let_def)
qed

text \<open>
  A box of no area has an empty crop, on which the step raises; a box of
  positive area inside the image has a crop with pixels, and the step returns
  a box inside it.
\<close>

lemma crop_zero_area:
  assumes "0 \<le> x1" "x1 \<le> x2" "0 \<le> y1" "y1 \<le> y2" and "x1 = x2 \<or> y1 = y2"
  shows "concat (crop img x1 y1 x2 y2) = []"
proof -
  let ?roi = "crop img x1 y1 x2 y2"
  from assms have nn: "0 \<le> x2" "0 \<le> y2" by simp_all
  have "row = []" if row: "row \<in> set ?roi" for row
  proof -
    from row obtain y where y: "y < length ?roi" and r: "?roi ! y = row"
      by (auto simp: in_set_conv_nth)
    from assms(5) show ?thesis
    proof
      assume "x1 = x2"
      with length_crop_row_le [OF assms(1) nn(1) y] r show ?thesis by simp
    next
      assume "y1 = y2"
      with length_crop_le [OF assms(3) nn(2), of img x1 x2] y show ?thesis by simp
    qed
  qed
  then show ?thesis by simp
qed

lemma shrink_wrap_zero_area:
  assumes "0 \<le> x1" "x1 \<le> x2" "0 \<le> y1" "y1 \<le> y2" and "x1 = x2 \<or> y1 = y2"
  shows "shrink_wrap img (Box (of_int x1) (of_int y1) (of_int x2) (of_int y2)) = Inl Cv2Error"
  using crop_zero_area [OF assms] by (rule shrink_wrap_empty_crop)

lemma crop_positive_area:
  assumes "0 \<le> x1" "x1 < x2" "0 \<le> y1" "y1 < y2"
    and "y2 \<le> int (length img)" and "\<forall>row \<in> set img. x2 \<le> int (length row)"
  shows "concat (crop img x1 y1 x2 y2) \<noteq> []"
proof -
  let ?roi = "crop img x1 y1 x2 y2"
  from assms have le: "x1 \<le> x2" "y1 \<le> y2" by simp_all
  note facts = crop_in_bounds [OF assms(1) le(1) assms(3) le(2) assms(5,6)]
  from assms(4) have y0: "0 < nat (y2 - y1)" by simp
  with facts(1) have in_roi: "?roi ! 0 \<in> set ?roi" by (intro nth_mem) simp
  from facts(2) y0 have "length (?roi ! 0) = nat (x2 - x1)" by simp
  with assms(2) have "?roi ! 0 \<noteq> []" by auto
  with in_roi show ?thesis by auto
qed

lemma shrink_wrap_within_box:
  assumes "0 \<le> x1" "x1 < x2" "0 \<le> y1" "y1 < y2"
    and "y2 \<le> int (length img)" and "\<forall>row \<in> set img. x2 \<le> int (length row)"
  shows "\<exists>out. shrink_wrap img (Box (of_int x1) (of_int y1) (of_int x2) (of_int y2)) = Inr out
          \<and> box_contains (Box x1 y1 x2 y2) out
          \<and> (ink_positions (crop img x1 y1 x2 y2) \<noteq> [] \<longrightarrow>
                out = translate x1 y1 (ink_rectangle (crop img x1 y1 x2 y2)))
          \<and> (ink_positions (crop img x1 y1 x2 y2) = [] \<longrightarrow> out = Box x1 y1 x2 y2)"
proof (cases "ink_positions (crop img x1 y1 x2 y2) = []")
  case True
  from crop_positive_area [OF assms] True
  have "shrink_wrap img (Box (of_int x1) (of_int y1) (of_int x2) (of_int y2)) = Inr (Box x1 y1 x2 y2)"
    by (rule shrink_wrap_no_ink)
  with True show ?thesis by (simp add: box_contains_def)
next
  case False
  from assms have le: "x1 \<le> x2" "y1 \<le> y2" by simp_all
  from False have "shrink_wrap img (Box (of_int x1) (of_int y1) (of_int x2) (of_int y2))
      = Inr (translate x1 y1 (ink_rectangle (crop img x1 y1 x2 y2)))"
    by (rule shrink_wrap_ink)
  with ink_rectangle_in_crop [OF assms(1) le(1) assms(3) le(2) False] False
  show ?thesis by simp
qed

text \<open>When the shrink-wrap loop completes, every ordered box has its index.\<close>

lemma shrink_all_length:
  "shrink_all img ordered_boxes = Inr final_output_boxes \<Longrightarrow>
     length final_output_boxes = length ordered_boxes"
proof (induction ordered_boxes arbitrary: final_output_boxes)
  case Nil
  then show ?case by simp
next
  case (Cons box rest)
  from Cons.prems obtain shrunk others where
    "shrink_all img rest = Inr others" and "final_output_boxes = shrunk # others"
    by (auto split: sum.splits)
  with Cons.IH [of others] show ?case by simp
qed

lemma order_and_shrink_indices:
  assumes "order_and_shrink img boxes = Inr records"
  shows "map index records = map int [1..<Suc (length boxes)]"
proof -
  from assms obtain final where final: "shrink_all img (xy_cut_sort boxes True) = Inr final"
    and records: "records = reading_order final"
    by (auto simp: order_and_shrink_def split: sum.splits)
  from final have "length final = length boxes"
    by (simp add: shrink_all_length length_xy_cut_sort)
  with records show ?thesis by (simp only: index_reading_order)
qed

section \<open>The claims\<close>

text \<open>
  C1 (as the specification states it): for the two boxes \<open>[0,0,10,10]\<close> and
  \<open>[5,5,15,15]\<close> and the threshold 0.3, \<open>merge_overlapping_boxes\<close> returns the
  single box \<open>[0,0,15,15]\<close>. The code does not: the result is not that list.
\<close>

theorem C1_scenario_A_counterexample:
  "merge_overlapping_boxes [Box 0 0 10 10, Box 5 5 15 15] (3 / 10) \<noteq> Inr [Box 0 0 15 15]"
  by (simp add: merge_eval)

text \<open>
  C1 (amended): for the two boxes \<open>[0,0,10,10]\<close> and \<open>[5,5,15,15]\<close> and the
  threshold 0.3, \<open>merge_overlapping_boxes\<close> returns the two boxes unchanged.
  The pair fails the same-row test (the vertical overlap 5 is not greater than
  half the smaller height 10), and its overlap ratio is 25/100 = 1/4, which
  does not exceed 0.3 either.
\<close>

theorem C1_scenario_A_not_merged:
  "merge_overlapping_boxes [Box 0 0 10 10, Box 5 5 15 15] (3 / 10)
     = Inr [Box 0 0 10 10, Box 5 5 15 15]
   \<and> \<not> same_row (Box 0 0 10 10) (Box 5 5 15 15)
   \<and> overlap_ratio (Box 0 0 10 10) (Box 5 5 15 15) = Inr (1 / 4)
   \<and> merge_test (Box 0 0 10 10) (Box 5 5 15 15) (3 / 10) = Inr False"
  by (simp add: merge_eval)

text \<open>
  C2 (as the specification states it): when the associations contain a pair
  whose panel index or content index is out of range, \<open>get_inclusive_panels\<close>
  fails with an error. The code does not: with one panel, one text box and the
  association \<open>(5, 7)\<close>, which is out of range on both sides, it returns the
  panel, the same result as with no association at all.
\<close>

theorem C2_no_validation_counterexample:
  "\<not> assoc_in_range [Box 0 0 10 10] [Box 50 50 60 60] (5, 7)
   \<and> get_inclusive_panels [Box 0 0 10 10] [Box 50 50 60 60] [(5, 7)] = Inr [Box 0 0 10 10]
   \<and> get_inclusive_panels [Box 0 0 10 10] [Box 50 50 60 60] [] = Inr [Box 0 0 10 10]"
  by (simp add: assoc_in_range_def get_inclusive_panels_def expand_panel_def expand_step_def
      boxes_overlap_def py_int_def Let_def)

text \<open>
  C2 (amended): \<open>get_inclusive_panels\<close> does not validate the associations. A
  pair whose panel index or content index is out of range raises no error and
  is ignored: the call returns one box per panel, and the result is the one
  obtained from the associations with every out-of-range pair removed.
\<close>

theorem C2_out_of_range_association_ignored:
  "get_inclusive_panels panels texts associations
     = get_inclusive_panels panels texts (filter (assoc_in_range panels texts) associations)
   \<and> (\<exists>out. get_inclusive_panels panels texts associations = Inr out
            \<and> length out = length panels)"
  using get_inclusive_panels_ignores_out_of_range [of panels texts associations]
    get_inclusive_panels_total [of panels texts associations]
  by simp

text \<open>
  C3: for every list of boxes with \<open>x1 \<le> x2\<close> and \<open>y1 \<le> y2\<close>, zero-area boxes
  included, \<open>merge_overlapping_boxes\<close> is to complete without a division error.
  The code fails on the list \<open>[5,0,5,10]\<close>, \<open>[0,0,10,10]\<close>: the first box has
  width zero and area zero, the pair passes the same-row test, and the division
  by the smaller area raises \<^verbatim>\<open>ZeroDivisionError\<close>.
\<close>

theorem C3_zero_width_box_divides_by_zero:
  "list_all well_formed [Box 5 0 5 10, Box 0 0 10 10]
   \<and> area (Box 5 0 5 10) = 0
   \<and> same_row (Box 5 0 5 10) (Box 0 0 10 10)
   \<and> overlap_ratio (Box 5 0 5 10) (Box 0 0 10 10) = Inl ZeroDivisionError
   \<and> merge_overlapping_boxes [Box 5 0 5 10, Box 0 0 10 10] (3 / 10) = Inl ZeroDivisionError"
  by (simp add: merge_eval well_formed_def area_def)

text \<open>
  C4 (as the specification states it): in the row clustering of \<open>xy_cut_sort\<close> a
  new row is started exactly when the next box's \<open>y1\<close> exceeds 0.95 times the
  maximum \<open>y2\<close> over all boxes of the current row. The code does not do that:
  on the \<open>y1\<close>-sorted boxes \<open>[20,0,30,100]\<close>, \<open>[40,10,50,20]\<close>, \<open>[0,50,10,60]\<close>
  the third box starts a new row although its \<open>y1 = 50\<close> does not exceed
  \<open>0.95 \<times> max(100, 20) = 95\<close>; \<open>xy_cut_sort\<close> therefore keeps it after the
  first two instead of sorting it into their row.
\<close>

theorem C4_running_max_counterexample:
  "row_clusters [Box 20 0 30 100, Box 40 10 50 20, Box 0 50 10 60]
     = [[Box 20 0 30 100, Box 40 10 50 20], [Box 0 50 10 60]]
   \<and> \<not> starts_new_row_running_max [Box 20 0 30 100, Box 40 10 50 20] (Box 0 50 10 60)
   \<and> xy_cut_sort [Box 20 0 30 100, Box 40 10 50 20, Box 0 50 10 60] False
     = [Box 20 0 30 100, Box 40 10 50 20, Box 0 50 10 60]"
  by (simp add: starts_new_row_def starts_new_row_running_max_def xy_cut_sort_def py_sort_def)

text \<open>
  C4 (amended): a new row is started exactly when the next box's \<open>y1\<close> exceeds
  0.95 times the \<open>y2\<close> of the box most recently added to the current row. The
  rows partition the list in order, no row is empty, inside a row no box
  passes that test against its predecessor (\<open>successively\<close> relates each element
  to the next), and the first box of every later row passes it against the
  last box of the row before.
\<close>

theorem C4_new_row_by_last_box:
  "concat (row_clusters boxes) = boxes
   \<and> (\<forall>c \<in> set (row_clusters boxes).
         c \<noteq> [] \<and> successively (\<lambda>prev b. \<not> starts_new_row prev b) c)
   \<and> successively (\<lambda>c c'. starts_new_row (last c) (hd c')) (row_clusters boxes)"
proof (cases boxes)
  case Nil
  then show ?thesis by simp
next
  case (Cons b rest)
  have "[] \<notin> set (cluster_loop rest [] [b])" by (rule cluster_loop_nonempty) simp_all
  moreover have "\<forall>c \<in> set (cluster_loop rest [] [b]).
      successively (\<lambda>u v. \<not> starts_new_row u v) c"
    by (rule cluster_loop_within) simp_all
  moreover have "successively (\<lambda>c c'. starts_new_row (last c) (hd c')) (cluster_loop rest [] [b])"
    by (rule cluster_loop_between) simp_all
  ultimately show ?thesis using Cons by (auto simp: concat_cluster_loop)
qed

text \<open>
  The instance of C4 on the three boxes above: the second box stays in the row
  of the first, the third starts a new row after the second.
\<close>

theorem C4_new_row_by_last_box_witness:
  "row_clusters [Box 20 0 30 100, Box 40 10 50 20, Box 0 50 10 60]
     = [[Box 20 0 30 100, Box 40 10 50 20], [Box 0 50 10 60]]
   \<and> \<not> starts_new_row (Box 20 0 30 100) (Box 40 10 50 20)
   \<and> starts_new_row (Box 40 10 50 20) (Box 0 50 10 60)"
proof -
  let ?boxes = "[Box 20 0 30 100, Box 40 10 50 20, Box 0 50 10 60] :: rat box list"
  have rows: "row_clusters ?boxes = [[Box 20 0 30 100, Box 40 10 50 20], [Box 0 50 10 60]]"
    by (simp add: starts_new_row_def)
  from C4_new_row_by_last_box [of ?boxes] show ?thesis
    unfolding rows by simp
qed

text \<open>
  C5 (as the specification states it): the box returned for panel \<open>i\<close> fully
  contains every content box associated with \<open>i\<close>, also for non-integer
  coordinates. The code does not ensure that: for the panel \<open>[0,0,100,100]\<close>
  and the associated content box \<open>[90,40,120.5,60]\<close> it returns
  \<open>[0,0,120,100]\<close>, and \<open>120.5 > 120\<close>.
\<close>

theorem C5_truncation_counterexample:
  "get_inclusive_panels [Box 0 0 100 100] [Box 90 40 (241 / 2) 60] [(0, 0)]
     = Inr [Box 0 0 120 100]
   \<and> \<not> box_contains (map_box rat_of_int (Box 0 0 120 100)) (Box 90 40 (241 / 2) 60)"
  by (simp add: get_inclusive_panels_def expand_panel_def expand_step_def
      boxes_overlap_def py_int_def box_contains_def Let_def floor_eq_iff)

text \<open>
  C5 (amended): for every panel index \<open>i\<close> and every content box \<open>c\<close> at an
  index \<open>j\<close> with \<open>(i, j)\<close> in the associations, the box returned at position
  \<open>i\<close> contains \<open>c\<close> with its coordinates truncated by \<^verbatim>\<open>int\<close>; so it fully
  contains \<open>c\<close> whenever the coordinates of \<open>c\<close> are integers, whatever the
  coordinates of the panels and of the other content boxes are.
\<close>

theorem C5_associated_content_covered:
  assumes "i < length panels" and "j < length texts"
    and "(int i, int j) \<in> set associations"
  shows "\<exists>out. get_inclusive_panels panels texts associations = Inr out
           \<and> length out = length panels
           \<and> box_contains (out ! i) (map_box py_int (texts ! j))
           \<and> (box_x1 (texts ! j) \<in> \<int> \<and> box_y1 (texts ! j) \<in> \<int>
                \<and> box_x2 (texts ! j) \<in> \<int> \<and> box_y2 (texts ! j) \<in> \<int>
               \<longrightarrow> box_contains (map_box rat_of_int (out ! i)) (texts ! j))"
proof -
  from get_inclusive_panels_total obtain out
    where out: "get_inclusive_panels panels texts associations = Inr out"
      and len: "length out = length panels" by blast
  let ?acc = "expanded texts associations i (panels ! i)"
  let ?c = "texts ! j"
  from out assms(1) have nth: "out ! i = map_box py_int ?acc"
    by (simp add: get_inclusive_panels_nth expand_panel_expanded)
  have cov: "box_contains ?acc ?c" using assms(2,3) by (rule expanded_covers_associated)
  have trunc: "box_contains (map_box py_int ?acc) (map_box py_int ?c)"
    using cov by (cases ?acc; cases ?c) (simp add: box_contains_def py_int_mono)
  have "box_contains (map_box rat_of_int (out ! i)) ?c"
    if ints: "box_x1 ?c \<in> \<int> \<and> box_y1 ?c \<in> \<int> \<and> box_x2 ?c \<in> \<int> \<and> box_y2 ?c \<in> \<int>"
  proof -
    from ints have "map_box rat_of_int (map_box py_int ?c) = ?c"
      by (cases ?c) (simp add: py_int_Ints)
    moreover from trunc have "box_contains (map_box rat_of_int (map_box py_int ?acc))
        (map_box rat_of_int (map_box py_int ?c))"
      by (cases ?acc; cases ?c) (simp add: box_contains_def)
    ultimately show ?thesis by (simp add: nth)
  qed
  with out len nth trunc show ?thesis by (intro exI [of _ out]) simp
qed

text \<open>
  The instance of C5 on a panel and an associated content box far to its right
  (no spatial overlap): the returned box reaches out to the content box.
\<close>

theorem C5_associated_content_covered_witness:
  "get_inclusive_panels [Box 0 0 100 100] [Box 300 40 320 60] [(0, 0)] = Inr [Box 0 0 320 100]
   \<and> \<not> boxes_overlap (Box 0 0 100 100) (Box 300 40 320 60) 5
   \<and> box_contains (map_box rat_of_int (Box 0 0 320 100)) (Box 300 40 320 60)"
proof -
  let ?panels = "[Box 0 0 100 100] :: rat box list"
  let ?texts = "[Box 300 40 320 60] :: rat box list"
  have result: "get_inclusive_panels ?panels ?texts [(0, 0)] = Inr [Box 0 0 320 100]"
    by (simp add: get_inclusive_panels_def expand_panel_def expand_step_def py_int_def Let_def)
  have apart: "\<not> boxes_overlap (Box 0 0 100 100) (Box 300 40 320 60) 5"
    by (simp add: boxes_overlap_def)
  from C5_associated_content_covered [of 0 ?panels 0 ?texts "[(0, 0)]"] result
  have "box_contains (map_box rat_of_int ([Box 0 0 320 100] ! 0)) (?texts ! 0)"
    by simp
  then have "box_contains (map_box rat_of_int (Box 0 0 320 100)) (Box 300 40 320 60)"
    by simp
  with result apart show ?thesis by simp
qed

text \<open>
  C6: \<open>merge_overlapping_boxes\<close> is idempotent. For every list of boxes with
  positive areas and every threshold the merger returns a list, and applied to
  that list with the same threshold it returns it unchanged.
\<close>

theorem C6_merge_idempotent:
  assumes "\<forall>b \<in> set boxes. 0 < area b"
  shows "\<exists>out. merge_overlapping_boxes boxes thr = Inr out
             \<and> merge_overlapping_boxes out thr = Inr out"
proof -
  from merge_overlapping_boxes_total [OF assms] obtain out
    where out: "merge_overlapping_boxes boxes thr = Inr out" ..
  then have "merge_overlapping_boxes out thr = Inr out" by (rule merge_overlapping_boxes_again)
  with out show ?thesis by (intro exI [of _ out]) simp
qed

text \<open>
  The instance of C6 on three boxes of which the first two merge: the run on
  the output gives the output again.
\<close>

theorem C6_merge_idempotent_witness:
  "merge_overlapping_boxes [Box 0 0 10 10, Box 2 2 12 12, Box 50 0 60 10] (3 / 10)
     = Inr [Box 0 0 12 12, Box 50 0 60 10]
   \<and> merge_overlapping_boxes [Box 0 0 12 12, Box 50 0 60 10] (3 / 10)
     = Inr [Box 0 0 12 12, Box 50 0 60 10]"
proof -
  let ?boxes = "[Box 0 0 10 10, Box 2 2 12 12, Box 50 0 60 10] :: rat box list"
  have pos: "\<forall>b \<in> set ?boxes. 0 < area b" by (simp add: area_def)
  have first: "merge_overlapping_boxes ?boxes (3 / 10) = Inr [Box 0 0 12 12, Box 50 0 60 10]"
    by (simp add: merge_eval)
  from C6_merge_idempotent [OF pos, of "3 / 10"] first show ?thesis by simp
qed

text \<open>
  C7: for every list of boxes and either value of \<open>rtl\<close>, the output of
  \<open>xy_cut_sort\<close> is a permutation of the input: the same multiset of boxes,
  hence the same number. The indices that \<open>main\<close> then assigns to the list of
  final boxes are the contiguous integers \<open>1, 2, \<dots>\<close>, one per box.
\<close>

theorem C7_xy_cut_sort_permutation:
  "mset (xy_cut_sort boxes rtl) = mset boxes
   \<and> length (xy_cut_sort boxes rtl) = length boxes
   \<and> map index (reading_order final_output_boxes)
       = map int [1..<Suc (length final_output_boxes)]"
  by (simp add: mset_xy_cut_sort length_xy_cut_sort index_reading_order del: upt_Suc)

text \<open>
  C8: for every box with non-negative integer coordinates inside the image and
  \<open>x1 \<le> x2\<close>, \<open>y1 \<le> y2\<close>, the shrink-wrap step is to return a box contained
  in the input box, the input box itself when the crop has no ink. The code
  fails on the box \<open>[2,0,2,3]\<close> of width zero in an image of three rows of four
  pixels: the crop has three rows of no pixels, \<^verbatim>\<open>threshold\<close> gives no mask and
  \<^verbatim>\<open>findNonZero\<close> raises \<^verbatim>\<open>cv2.error\<close>. On the box \<open>[0,0,4,3]\<close> of the same
  image the step returns the rectangle \<open>[1,1,3,2]\<close> around the ink.
\<close>

theorem C8_empty_crop_raises:
  "well_formed (Box 2 0 2 3)
   \<and> crop [[255, 255, 255, 255], [255, 0, 100, 255], [255, 255, 250, 255]] 2 0 2 3 = [[], [], []]
   \<and> shrink_wrap [[255, 255, 255, 255], [255, 0, 100, 255], [255, 255, 250, 255]] (Box 2 0 2 3)
       = Inl Cv2Error
   \<and> shrink_wrap [[255, 255, 255, 255], [255, 0, 100, 255], [255, 255, 250, 255]] (Box 0 0 4 3)
       = Inr (Box 1 1 3 2)"
  by (simp add: well_formed_def shrink_wrap_def crop_def py_slice_def slice_bound_def py_int_def
      threshold_binary_inv_def binary_inv_mask_def findNonZero_def nonzero_points_def Let_def)

text \<open>
  C9: \<open>merge_overlapping_boxes\<close> terminates on every list of boxes with positive
  areas. It returns a list that is no longer than the input and in which a full
  pass finds no pair that passes both tests; a pass that merges makes the list
  shorter by exactly one before the loop restarts on it; and a pass that finds
  no pair ends the loop with the list as it is.
\<close>

theorem C9_merge_terminates:
  assumes "\<forall>b \<in> set boxes. 0 < area b"
  shows "(\<exists>out. merge_overlapping_boxes boxes thr = Inr out
            \<and> length out \<le> length boxes
            \<and> outer_scan out thr 0 = Inr None
            \<and> (\<forall>i k. i < k \<and> k < length out \<longrightarrow> merge_test (out ! i) (out ! k) thr = Inr False))
         \<and> (\<forall>boxes'. outer_scan boxes thr 0 = Inr (Some boxes') \<longrightarrow>
               Suc (length boxes') = length boxes \<and> merge_loop boxes thr = merge_loop boxes' thr)
         \<and> (outer_scan boxes thr 0 = Inr None \<longrightarrow> merge_loop boxes thr = Inr boxes)"
proof (intro conjI allI impI)
  from merge_overlapping_boxes_total [OF assms] obtain out
    where out: "merge_overlapping_boxes boxes thr = Inr out" ..
  then have len: "length out \<le> length boxes" by (rule merge_overlapping_boxes_length)
  from out have fp: "outer_scan out thr 0 = Inr None" by (rule merge_overlapping_boxes_fixpoint)
  then have "\<forall>i k. i < k \<and> k < length out \<longrightarrow> merge_test (out ! i) (out ! k) thr = Inr False"
    by (simp add: outer_scan_None)
  with out len fp show "\<exists>out. merge_overlapping_boxes boxes thr = Inr out
            \<and> length out \<le> length boxes
            \<and> outer_scan out thr 0 = Inr None
            \<and> (\<forall>i k. i < k \<and> k < length out \<longrightarrow> merge_test (out ! i) (out ! k) thr = Inr False)"
    by (intro exI [of _ out]) simp
next
  fix boxes' assume "outer_scan boxes thr 0 = Inr (Some boxes')"
  then show "Suc (length boxes') = length boxes" by (rule outer_scan_length)
next
  fix boxes' assume "outer_scan boxes thr 0 = Inr (Some boxes')"
  then show "merge_loop boxes thr = merge_loop boxes' thr" by (rule merge_loop_restart)
next
  assume "outer_scan boxes thr 0 = Inr None"
  then show "merge_loop boxes thr = Inr boxes" by (rule merge_loop_exit)
qed

text \<open>
  The instance of C9 on three boxes: one pass merges the first two and leaves a
  list shorter by one, on which the next pass finds nothing.
\<close>

theorem C9_merge_terminates_witness:
  "merge_overlapping_boxes [Box 0 0 10 10, Box 2 2 12 12, Box 50 0 60 10] (3 / 10)
     = Inr [Box 0 0 12 12, Box 50 0 60 10]
   \<and> outer_scan [Box 0 0 10 10, Box 2 2 12 12, Box 50 0 60 10] (3 / 10) 0
     = Inr (Some [Box 0 0 12 12, Box 50 0 60 10])
   \<and> outer_scan [Box 0 0 12 12, Box 50 0 60 10] (3 / 10) 0 = Inr None
   \<and> merge_test (Box 0 0 12 12) (Box 50 0 60 10) (3 / 10) = Inr False"
proof -
  let ?boxes = "[Box 0 0 10 10, Box 2 2 12 12, Box 50 0 60 10] :: rat box list"
  let ?out = "[Box 0 0 12 12, Box 50 0 60 10] :: rat box list"
  have pos: "\<forall>b \<in> set ?boxes. 0 < area b" by (simp add: area_def)
  have first: "merge_overlapping_boxes ?boxes (3 / 10) = Inr ?out"
    by (simp add: merge_eval)
  have pass: "outer_scan ?boxes (3 / 10) 0 = Inr (Some ?out)"
    by (simp add: merge_eval)
  from C9_merge_terminates [OF pos, of "3 / 10"] first
  have fp: "outer_scan ?out (3 / 10) 0 = Inr None"
    and pairs: "\<forall>i k. i < k \<and> k < length ?out \<longrightarrow> merge_test (?out ! i) (?out ! k) (3 / 10) = Inr False"
    by simp_all
  from pairs [rule_format, of 0 1]
  have "merge_test (Box 0 0 12 12) (Box 50 0 60 10) (3 / 10) = Inr False" by simp
  with first pass fp show ?thesis by simp
qed

text \<open>
  C10: for every list of boxes with positive areas, \<open>merge_overlapping_boxes\<close>
  returns a list, and every box of the input is fully contained in some box of
  that list.
\<close>

theorem C10_merge_keeps_every_box_covered:
  assumes "\<forall>b \<in> set boxes. 0 < area b"
  shows "\<exists>out. merge_overlapping_boxes boxes thr = Inr out
             \<and> (\<forall>b \<in> set boxes. \<exists>c \<in> set out. box_contains c b)"
proof -
  from merge_overlapping_boxes_total [OF assms] obtain out
    where out: "merge_overlapping_boxes boxes thr = Inr out" ..
  then have "\<forall>b \<in> set boxes. \<exists>c \<in> set out. box_contains c b"
    by (intro ballI merge_overlapping_boxes_contains)
  with out show ?thesis by (intro exI [of _ out]) simp
qed

text \<open>
  The instance of C10 on three boxes: the second box lies in the merged box of
  the output.
\<close>

theorem C10_merge_keeps_every_box_covered_witness:
  "merge_overlapping_boxes [Box 0 0 10 10, Box 2 2 12 12, Box 50 0 60 10] (3 / 10)
     = Inr [Box 0 0 12 12, Box 50 0 60 10]
   \<and> (\<exists>c \<in> set [Box 0 0 12 12, Box 50 0 60 10 :: rat box]. box_contains c (Box 2 2 12 12))"
proof -
  let ?boxes = "[Box 0 0 10 10, Box 2 2 12 12, Box 50 0 60 10] :: rat box list"
  let ?out = "[Box 0 0 12 12, Box 50 0 60 10] :: rat box list"
  have pos: "\<forall>b \<in> set ?boxes. 0 < area b" by (simp add: area_def)
  have first: "merge_overlapping_boxes ?boxes (3 / 10) = Inr ?out"
    by (simp add: merge_eval)
  from C10_merge_keeps_every_box_covered [OF pos, of "3 / 10"] first
  have "\<forall>b \<in> set ?boxes. \<exists>c \<in> set ?out. box_contains c b"
    by simp
  then have "\<exists>c \<in> set ?out. box_contains c (Box 2 2 12 12)"
    by simp
  with first show ?thesis by simp
qed

end
